theory Spec2Isabelle
  imports Main
begin

section \<open>Strings and the string built-ins the converter calls\<close>

text \<open>
  Source strings are modelled as \<^typ>\<open>string\<close>. Every character the code tests for
  (\<open>{\<close>, \<open>;\<close>, the space, the digits, the line feed, \<open>_[j]\<close>, \<open>::\<close>) is ASCII, and
  the code treats all other characters alike.
\<close>

definition is_digit :: "char \<Rightarrow> bool" where
  "is_digit c = (c \<in> set ''0123456789'')"

definition digit_val :: "char \<Rightarrow> nat" where
  "digit_val c = of_char c - 48"

text \<open>
  \<open>parseInt\<close> is only ever applied to the third capture group, a non-empty run of
  decimal digits; on such a string it yields the decimal value. Numbers are modelled as
  \<^typ>\<open>nat\<close>: the counters of the source are doubles that hold every integer below
  \<open>2^53\<close> exactly.
\<close>

definition parseInt :: "string \<Rightarrow> nat" where
  "parseInt ds = foldl (\<lambda>n c. 10 * n + digit_val c) 0 ds"

definition startsWith :: "string \<Rightarrow> string \<Rightarrow> bool" where
  "startsWith pre s = (take (length pre) s = pre)"

definition endsWith :: "string \<Rightarrow> string \<Rightarrow> bool" where
  "endsWith suf s = (length suf \<le> length s \<and> drop (length s - length suf) s = suf)"

fun js_includes :: "string \<Rightarrow> string \<Rightarrow> bool" where
  "js_includes sub [] = (sub = [])"
| "js_includes sub (c # cs) = (startsWith sub (c # cs) \<or> js_includes sub cs)"

text \<open>\<open>s.indexOf(c)\<close>: the index of the first occurrence, \<open>-1\<close> when there is none.\<close>

fun indexOf :: "char \<Rightarrow> string \<Rightarrow> int" where
  "indexOf c [] = - 1"
| "indexOf c (x # xs) =
     (if x = c then 0 else (let i = indexOf c xs in if i < 0 then - 1 else i + 1))"

text \<open>
  \<open>s.substring(a, b)\<close>: both arguments are clamped to \<open>[0, length]\<close> (so a negative
  argument counts as 0) and swapped when the first exceeds the second.
\<close>

definition substring :: "int \<Rightarrow> int \<Rightarrow> string \<Rightarrow> string" where
  "substring a b s =
     (let n = int (length s);
          a' = max 0 (min a n);
          b' = max 0 (min b n);
          lo = min a' b';
          hi = max a' b'
      in take (nat (hi - lo)) (drop (nat lo) s))"

text \<open>
  \<open>s.split(c)\<close> for a one-character separator: the pieces between the separators, so a
  string with \<open>k\<close> separators gives \<open>k + 1\<close> pieces and the empty string gives one
  empty piece. (The second branch of the \<open>case\<close> is never taken.)
\<close>

fun split_js :: "char \<Rightarrow> string \<Rightarrow> string list" where
  "split_js sep [] = [[]]"
| "split_js sep (c # cs) =
     (if c = sep then [] # split_js sep cs
      else (case split_js sep cs of
              r # rs \<Rightarrow> (c # r) # rs
            | [] \<Rightarrow> [[c]]))"

text \<open>Rendering of a non-negative integer in a template string: its decimal digits.\<close>

definition digit_char :: "nat \<Rightarrow> char" where
  "digit_char d = char_of (48 + d)"

function show_nat :: "nat \<Rightarrow> string" where
  "show_nat n = (if n < 10 then [digit_char n] else show_nat (n div 10) @ [digit_char (n mod 10)])"
  by pat_completeness auto
termination
  by (relation "measure id") auto

declare show_nat.simps [simp del]


section \<open>Regular expressions with backtracking\<close>

text \<open>
  The two regular expressions of the source use character classes, concatenation and
  the greedy quantifiers \<open>*\<close> and \<open>+\<close> only. \<open>ends r s\<close> lists what is left of \<open>s\<close>
  after each way of matching \<open>r\<close> at its start, in the order in which a backtracking
  matcher tries them: a greedy star first tries one more iteration (an iteration that
  consumes nothing is not considered), then stops.
\<close>

datatype rx = Cls "char \<Rightarrow> bool" | Seq rx rx | Star rx

fun ends :: "rx \<Rightarrow> string \<Rightarrow> string list" where
  "ends (Cls p) s = (case s of [] \<Rightarrow> [] | c # cs \<Rightarrow> if p c then [cs] else [])"
| "ends (Seq a b) s = concat (map (ends b) (ends a s))"
| "ends (Star a) s =
     concat (map (\<lambda>s'. if length s' < length s then ends (Star a) s' else []) (ends a s)) @ [s]"

declare ends.simps(3) [simp del]

fun first_some :: "('a \<Rightarrow> 'b option) \<Rightarrow> 'a list \<Rightarrow> 'b option" where
  "first_some f [] = None"
| "first_some f (x # xs) = (case f x of Some y \<Rightarrow> Some y | None \<Rightarrow> first_some f xs)"

definition not_semi :: rx where
  "not_semi = Cls (\<lambda>c. c \<noteq> CHR '';'')"

definition semi :: rx where
  "semi = Cls (\<lambda>c. c = CHR '';'')"

definition space :: rx where
  "space = Cls (\<lambda>c. c = CHR '' '')"

definition digit :: rx where
  "digit = Cls is_digit"

text \<open>\<open>[^;]*(;[^;]*)*\<close>\<close>

definition frames_rx :: rx where
  "frames_rx = Seq (Star not_semi) (Star (Seq semi (Star not_semi)))"

text \<open>\<open>[0-9]+\<close>\<close>

definition digits_rx :: rx where
  "digits_rx = Seq digit (Star digit)"

text \<open>
  \<open>/[^;]*(;[^;]*)* [0-9]+/\<close>, the expression of the format detector. A match may start
  at any position of the text; the positions are tried from the left (\<open>starts s\<close> is
  the text from each position on).
\<close>

definition detect_rx :: rx where
  "detect_rx = Seq frames_rx (Seq space digits_rx)"

fun starts :: "string \<Rightarrow> string list" where
  "starts [] = [[]]"
| "starts (c # cs) = (c # cs) # starts cs"

definition rx_test :: "rx \<Rightarrow> string \<Rightarrow> bool" where
  "rx_test r s = list_ex (\<lambda>t. ends r t \<noteq> []) (starts s)"

text \<open>
  \<open>/([^;]*(;[^;]*)*) ([0-9]+)/\<close>, the expression of the line parser, with its capture
  groups 1 and 3. \<open>match_here\<close> is the first successful way to match at the start of
  \<open>s\<close>: what is left after group 1, after the space and after group 3.
\<close>

definition match_here :: "string \<Rightarrow> (string \<times> string \<times> string) option" where
  "match_here s =
     first_some (\<lambda>s1.
       first_some (\<lambda>s2.
         first_some (\<lambda>s3. Some (s1, s2, s3)) (ends digits_rx s2))
         (ends space s1))
       (ends frames_rx s)"

definition line_match :: "string \<Rightarrow> (string \<times> string) option" where
  "line_match l =
     first_some (\<lambda>s.
       map_option (\<lambda>(s1, s2, s3). (take (length s - length s1) s, take (length s2 - length s3) s2))
         (match_here s))
       (starts l)"


section \<open>The format detector\<close>

definition isFlameGraphFormat :: "string \<Rightarrow> bool" where
  "isFlameGraphFormat profile =
     (if startsWith ''{'' profile then False
      else (let firstLine = substring 0 (indexOf (CHR 0x0A) profile) profile
            in rx_test detect_rx firstLine))"


section \<open>The thread builder\<close>

definition OTHER_CATEGORY_INDEX :: nat where
  "OTHER_CATEGORY_INDEX = 0"

definition JAVA_CATEGORY_INDEX :: nat where
  "JAVA_CATEGORY_INDEX = 1"

definition NATIVE_CATEGORY_INDEX :: nat where
  "NATIVE_CATEGORY_INDEX = 2"

text \<open>The categories as (name, color, subcategories).\<close>

definition CATEGORIES :: "(string \<times> string \<times> string list) list" where
  "CATEGORIES =
     [(''Other'', ''grey'', [''Other'']),
      (''Java'', ''yellow'', [''Other'']),
      (''Native'', ''blue'', [''Other''])]"

text \<open>
  A row of \<open>frameTable.data\<close>, in the order of the table's schema. \<open>None\<close> is the
  source's \<open>null\<close>.
\<close>

record frame_row =
  location :: nat
  relevantForJS :: bool
  innerWindowID :: nat
  implementation :: "nat option"
  optimizations :: "nat option"
  line :: "nat option"
  column :: "nat option"
  category :: nat
  subcategory :: "nat option"

text \<open>
  The thread object that \<open>finish\<close> returns, with the \<open>data\<close> arrays of its tables
  (their schemas are constants). A row of \<open>samples\<close> is (stack, time, responsiveness), a
  row of \<open>stackTable\<close> is (prefix, frame). The constant fields \<open>registerTime\<close>,
  \<open>unregisterTime\<close> and \<open>processType\<close> are left out.
\<close>

record gecko_thread =
  tid :: nat
  pid :: nat
  name :: string
  markers :: "unit list"
  samples :: "(nat option \<times> nat \<times> nat) list"
  frameTable :: "frame_row list"
  stackTable :: "(nat option \<times> nat) list"
  stringTable :: "string list"

text \<open>
  The state captured by the closures of \<open>_createThread\<close>: the tables and the two
  \<open>Map\<close> objects.
\<close>

record thread_builder = gecko_thread +
  stackMap :: "string \<rightharpoonup> nat"
  frameMap :: "string \<rightharpoonup> nat"

definition createThread :: "string \<Rightarrow> nat \<Rightarrow> nat \<Rightarrow> thread_builder" where
  "createThread nm p t =
     \<lparr>tid = t, pid = p, name = nm, markers = [], samples = [], frameTable = [],
      stackTable = [], stringTable = [], stackMap = Map.empty, frameMap = Map.empty\<rparr>"

definition stack_key :: "nat \<Rightarrow> nat option \<Rightarrow> string" where
  "stack_key frame prefix =
     (case prefix of
        None \<Rightarrow> show_nat frame
      | Some p \<Rightarrow> show_nat frame @ '','' @ show_nat p)"

definition getOrCreateStack :: "nat \<Rightarrow> nat option \<Rightarrow> thread_builder \<Rightarrow> nat \<times> thread_builder" where
  "getOrCreateStack frame prefix st =
     (let key = stack_key frame prefix in
      case stackMap st key of
        Some stack \<Rightarrow> (stack, st)
      | None \<Rightarrow>
          (let stack = length (stackTable st) in
           (stack, st\<lparr>stackTable := stackTable st @ [(prefix, frame)],
                      stackMap := (stackMap st)(key \<mapsto> stack)\<rparr>)))"

text \<open>\<open>frameString.replace(/_\[j\]$/, '')\<close>: the only possible match is at the very end.\<close>

definition strip_java :: "string \<Rightarrow> string" where
  "strip_java s = (if endsWith ''_[j]'' s then take (length s - 4) s else s)"

definition categorize :: "string \<Rightarrow> nat" where
  "categorize frameString =
     (if endsWith ''_[j]'' frameString then JAVA_CATEGORY_INDEX
      else if \<not> js_includes ''::'' frameString then NATIVE_CATEGORY_INDEX
      else OTHER_CATEGORY_INDEX)"

definition getOrCreateFrame :: "string \<Rightarrow> thread_builder \<Rightarrow> nat \<times> thread_builder" where
  "getOrCreateFrame frameString st =
     (case frameMap st frameString of
        Some frame \<Rightarrow> (frame, st)
      | None \<Rightarrow>
          (let frame = length (frameTable st);
               loc = length (stringTable st);
               st1 = st\<lparr>stringTable := stringTable st @ [strip_java frameString]\<rparr>;
               row = \<lparr>location = loc, relevantForJS = False, innerWindowID = 0,
                      implementation = None, optimizations = None, line = None,
                      column = None, category = categorize frameString,
                      subcategory = None\<rparr>
           in (frame, st1\<lparr>frameTable := frameTable st1 @ [row],
                          frameMap := (frameMap st1)(frameString \<mapsto> frame)\<rparr>)))"

text \<open>The \<open>reduce\<close> of \<open>addSample\<close>, started at \<open>null\<close>.\<close>

fun reduce_stack :: "string list \<Rightarrow> nat option \<Rightarrow> thread_builder \<Rightarrow> nat option \<times> thread_builder" where
  "reduce_stack [] prefix st = (prefix, st)"
| "reduce_stack (stackFrame # rest) prefix st =
     (let (frame, st1) = getOrCreateFrame stackFrame st;
          (stack, st2) = getOrCreateStack frame prefix st1
      in reduce_stack rest (Some stack) st2)"

definition addSample :: "nat \<Rightarrow> string list \<Rightarrow> thread_builder \<Rightarrow> thread_builder" where
  "addSample time stackArray st =
     (let (stack, st1) = reduce_stack stackArray None st;
          responsiveness = 0
      in st1\<lparr>samples := samples st1 @ [(stack, time, responsiveness)]\<rparr>)"

definition finish :: "thread_builder \<Rightarrow> gecko_thread" where
  "finish st = gecko_thread.truncate st"


section \<open>The conversion\<close>

text \<open>
  The state of the loop over the lines: the thread under construction, the counter
  \<open>timeStamp\<close>, and the lines written to the console.
\<close>

record conv_state =
  thread :: thread_builder
  timeStamp :: nat
  console :: "string list"

text \<open>\<open>while (count-- > 0) { ... }\<close>\<close>

fun sample_loop :: "nat \<Rightarrow> string \<Rightarrow> conv_state \<Rightarrow> conv_state" where
  "sample_loop 0 frames c = c"
| "sample_loop (Suc count) frames c =
     sample_loop count frames
       (let stack = split_js (CHR '';'') frames in
        if length stack \<noteq> 0
        then c\<lparr>thread := addSample (timeStamp c) stack (thread c),
               timeStamp := timeStamp c + 1\<rparr>
        else c)"

definition convert_line :: "string \<Rightarrow> conv_state \<Rightarrow> conv_state" where
  "convert_line l c =
     (if l = [] then c
      else (case line_match l of
              None \<Rightarrow> c\<lparr>console := console c @ [l]\<rparr>
            | Some (frames, duration) \<Rightarrow> sample_loop (parseInt duration) frames c))"

text \<open>The state before the first line: a fresh thread, \<open>timeStamp = 0\<close>.\<close>

definition initial_conv :: conv_state where
  "initial_conv = \<lparr>thread = createThread ''MainThread'' 0 0, timeStamp = 0, console = []\<rparr>"

definition convert_lines :: "string list \<Rightarrow> conv_state" where
  "convert_lines ls = fold convert_line ls initial_conv"

text \<open>
  The returned profile. Of \<open>meta\<close>, the fields \<open>interval\<close>, \<open>version\<close> and
  \<open>categories\<close> are kept; the other fields of \<open>meta\<close> are constants, as is the empty
  \<open>pausedRanges\<close>.
\<close>

record profile_meta =
  interval :: nat
  version :: nat
  categories :: "(string \<times> string \<times> string list) list"

record gecko_profile =
  meta :: profile_meta
  libs :: "unit list"
  threads :: "gecko_thread list"
  processes :: "unit list"

text \<open>The result of the conversion, together with what it wrote to the console.\<close>

definition convertFlameGraphProfile :: "string \<Rightarrow> gecko_profile \<times> string list" where
  "convertFlameGraphProfile profile =
     (let c = convert_lines (split_js (CHR 0x0A) profile) in
      (\<lparr>meta = \<lparr>interval = 1, version = 24, categories = CATEGORIES\<rparr>,
        libs = [],
        threads = [finish (thread c)],
        processes = []\<rparr>,
       console c))"


section \<open>Auxiliary notions for the statements and proofs\<close>

text \<open>
  \<open>sep_at s\<close>: \<open>s\<close> starts with a space followed by a digit. \<open>last_sep s\<close> is the
  last position of \<open>s\<close> where that holds.
\<close>

fun sep_at :: "string \<Rightarrow> bool" where
  "sep_at (c # d # rest) = (c = CHR '' '' \<and> is_digit d)"
| "sep_at _ = False"

fun last_sep :: "string \<Rightarrow> nat option" where
  "last_sep [] = None"
| "last_sep (c # cs) =
     (case last_sep cs of
        Some e \<Rightarrow> Some (Suc e)
      | None \<Rightarrow> if sep_at (c # cs) then Some 0 else None)"

definition tail_rx :: rx where
  "tail_rx = Star (Seq semi (Star not_semi))"

definition try_sep :: "string \<Rightarrow> (string \<times> string \<times> string) option" where
  "try_sep s1 = (if sep_at s1 then Some (s1, tl s1, dropWhile is_digit (tl (tl s1))) else None)"


text \<open>
  \<open>ext a b\<close>: the two \<open>Map\<close> objects of \<open>b\<close> hold every entry of those of \<open>a\<close>.
\<close>

definition ext :: "thread_builder \<Rightarrow> thread_builder \<Rightarrow> bool" where
  "ext a b = (frameMap a \<subseteq>\<^sub>m frameMap b \<and> stackMap a \<subseteq>\<^sub>m stackMap b)"



text \<open>
  \<open>root_within tbl n i\<close>: following the prefix links of the stack table \<open>tbl\<close> from
  row \<open>i\<close> reaches a row without prefix (a root) after visiting at most \<open>n\<close> rows, all of
  them rows of the table.
\<close>

fun root_within :: "(nat option \<times> nat) list \<Rightarrow> nat \<Rightarrow> nat \<Rightarrow> bool" where
  "root_within tbl 0 i = False"
| "root_within tbl (Suc n) i =
     (i < length tbl \<and> (case fst (tbl ! i) of None \<Rightarrow> True | Some p \<Rightarrow> root_within tbl n p))"

text \<open>
  The invariant of the builder: every index stored in a table or in one of the two maps
  is the index of an existing row, and a prefix is an earlier row.
\<close>

definition stacks_ok :: "thread_builder \<Rightarrow> bool" where
  "stacks_ok st =
     (\<forall>i < length (stackTable st).
        (\<forall>q. fst (stackTable st ! i) = Some q \<longrightarrow> q < i) \<and>
        snd (stackTable st ! i) < length (frameTable st))"

definition frames_ok :: "thread_builder \<Rightarrow> bool" where
  "frames_ok st = (\<forall>r \<in> set (frameTable st). location r < length (stringTable st))"

definition samples_ok :: "thread_builder \<Rightarrow> bool" where
  "samples_ok st = (\<forall>x \<in> set (samples st). \<exists>k. fst x = Some k \<and> k < length (stackTable st))"

definition maps_ok :: "thread_builder \<Rightarrow> bool" where
  "maps_ok st =
     ((\<forall>key k. stackMap st key = Some k \<longrightarrow> k < length (stackTable st)) \<and>
      (\<forall>l f. frameMap st l = Some f \<longrightarrow> f < length (frameTable st)))"

definition wf_builder :: "thread_builder \<Rightarrow> bool" where
  "wf_builder st = (stacks_ok st \<and> frames_ok st \<and> samples_ok st \<and> maps_ok st)"

definition prefix_ok :: "nat option \<Rightarrow> thread_builder \<Rightarrow> bool" where
  "prefix_ok p st = (\<forall>q. p = Some q \<longrightarrow> q < length (stackTable st))"

text \<open>
  The raw labels passed to \<open>getOrCreateFrame\<close> while one line, and while a whole text, is
  converted, in call order: the pieces of the frames text, once per emitted sample.
\<close>

definition interned_line :: "string \<Rightarrow> string list" where
  "interned_line l =
     (case line_match l of
        None \<Rightarrow> []
      | Some (frames, duration) \<Rightarrow> concat (replicate (parseInt duration) (split_js (CHR '';'') frames)))"

definition interned :: "string \<Rightarrow> string list" where
  "interned profile = concat (map interned_line (split_js (CHR 0x0A) profile))"

text \<open>
  The distinct elements of a list in the order of their first occurrence.
\<close>

definition add_seen :: "'a list \<Rightarrow> 'a \<Rightarrow> 'a list" where
  "add_seen seen x = (if x \<in> set seen then seen else seen @ [x])"

definition first_seen :: "'a list \<Rightarrow> 'a list" where
  "first_seen xs = foldl add_seen [] xs"

text \<open>
  The frame side of the builder when the raw labels \<open>seen\<close> have been interned, in this
  order.
\<close>

definition seen_inv :: "thread_builder \<Rightarrow> string list \<Rightarrow> bool" where
  "seen_inv st seen =
     (distinct seen \<and>
      stringTable st = map strip_java seen \<and>
      map location (frameTable st) = [0..<length seen] \<and>
      (\<forall>l i. (frameMap st l = Some i) = (i < length seen \<and> seen ! i = l)))"

text \<open>
  The detector as the specification words it. The first line is the text up to the
  first line break, or the whole text when there is none; it has the claimed shape when
  it consists of a frames part (any text is a sequence of one or more \<open>;\<close>-separated
  segments without \<open>;\<close>), followed by whitespace, followed by one or more digits.
\<close>

definition is_whitespace :: "char \<Rightarrow> bool" where
  "is_whitespace c = (c \<in> set [CHR '' '', CHR 0x09, CHR 0x0A, CHR 0x0B, CHR 0x0C, CHR 0x0D])"

definition first_line :: "string \<Rightarrow> string" where
  "first_line p = takeWhile (\<lambda>c. c \<noteq> CHR 0x0A) p"

definition claimed_line_shape :: "string \<Rightarrow> bool" where
  "claimed_line_shape l =
     (\<exists>fr ws ds. l = fr @ ws @ ds \<and> ws \<noteq> [] \<and> (\<forall>c \<in> set ws. is_whitespace c)
        \<and> ds \<noteq> [] \<and> (\<forall>c \<in> set ds. is_digit c))"

definition claimed_detector :: "string \<Rightarrow> bool" where
  "claimed_detector p = (\<not> startsWith ''{'' p \<and> claimed_line_shape (first_line p))"

text \<open>
  The stack side of the builder: \<open>stackMap\<close> holds, for every row of \<open>stackTable\<close>, the
  key of its (prefix, frame) pair with the index of the row, and nothing else.
\<close>

definition key_inv :: "thread_builder \<Rightarrow> bool" where
  "key_inv st =
     (\<forall>key k. (stackMap st key = Some k) =
        (k < length (stackTable st) \<and>
         key = stack_key (snd (stackTable st ! k)) (fst (stackTable st ! k))))"

text \<open>
  The builder states that calls of \<open>getOrCreateFrame\<close>, \<open>getOrCreateStack\<close> and pushes
  of samples can reach from a fresh thread.
\<close>

inductive reachable :: "thread_builder \<Rightarrow> bool" where
  start: "reachable (createThread nm p t)"
| frame: "reachable st \<Longrightarrow> reachable (snd (getOrCreateFrame l st))"
| stack: "reachable st \<Longrightarrow> reachable (snd (getOrCreateStack f q st))"
| sample: "reachable st \<Longrightarrow> reachable (st\<lparr>samples := samples st @ [x]\<rparr>)"

text \<open>
  The \<open>frames weight\<close> shape of a line as the specification words it: the whole line is
  a frames text, a space and a number, one or more digits up to the end of the line.
\<close>

definition expected_shape :: "string \<Rightarrow> bool" where
  "expected_shape l =
     (\<exists>fr ds. l = fr @ CHR '' '' # ds \<and> ds \<noteq> [] \<and> (\<forall>c \<in> set ds. is_digit c))"

section \<open>What the two regular expressions match\<close>

lemma ends_Star_Cls_Nil: "ends (Star (Cls p)) [] = [[]]"
  by (simp add: ends.simps(3))

lemma ends_Star_Cls_Cons:
  "ends (Star (Cls p)) (c # cs) = (if p c then ends (Star (Cls p)) cs @ [c # cs] else [c # cs])"
  by (simp add: ends.simps(3) [of "Cls p" "c # cs"])

lemma ends_Star_Cls_hd: "\<exists>ts. ends (Star (Cls p)) s = dropWhile p s # ts"
  by (induction s) (auto simp: ends_Star_Cls_Nil ends_Star_Cls_Cons)

lemma ends_Star_Cls_shorter: "t \<in> set (ends (Star (Cls p)) s) \<Longrightarrow> length t \<le> length s"
  by (induction s) (auto simp: ends_Star_Cls_Nil ends_Star_Cls_Cons split: if_splits)

lemma tail_rx_Nil: "ends tail_rx [] = [[]]"
  by (simp add: tail_rx_def ends.simps(3) semi_def)

lemma tail_rx_not_semi: "c \<noteq> CHR '';'' \<Longrightarrow> ends tail_rx (c # cs) = [c # cs]"
  by (simp add: tail_rx_def ends.simps(3) [of _ "c # cs"] semi_def)

lemma tail_rx_semi:
  "ends tail_rx (CHR '';'' # cs) = concat (map (ends tail_rx) (ends (Star not_semi) cs)) @ [CHR '';'' # cs]"
proof -
  have "map (\<lambda>s'. if length s' < length (CHR '';'' # cs) then ends tail_rx s' else [])
          (ends (Star not_semi) cs) = map (ends tail_rx) (ends (Star not_semi) cs)"
    by (rule map_cong) (auto simp: not_semi_def dest: ends_Star_Cls_shorter)
  moreover have "ends tail_rx (CHR '';'' # cs) =
      concat (map (\<lambda>s'. if length s' < length (CHR '';'' # cs) then ends tail_rx s' else [])
          (ends (Star not_semi) cs)) @ [CHR '';'' # cs]"
    unfolding tail_rx_def by (subst ends.simps(3)) (simp add: semi_def)
  ultimately show ?thesis by (simp only:)
qed

lemma ends_frames_rx: "ends frames_rx s = rev (starts s)"
proof -
  have "concat (map (ends tail_rx) (ends (Star not_semi) s)) = rev (starts s)"
  proof (induction s)
    case Nil
    show ?case by (simp add: not_semi_def ends_Star_Cls_Nil tail_rx_Nil)
  next
    case (Cons c cs)
    show ?case
    proof (cases "c = CHR '';''")
      case True
      then show ?thesis using Cons
        by (simp add: not_semi_def ends_Star_Cls_Cons tail_rx_semi)
    next
      case False
      then show ?thesis using Cons
        by (simp add: not_semi_def ends_Star_Cls_Cons tail_rx_not_semi)
    qed
  qed
  then show ?thesis by (simp add: frames_rx_def tail_rx_def)
qed

lemma first_some_append:
  "first_some f (xs @ ys) = (case first_some f xs of Some y \<Rightarrow> Some y | None \<Rightarrow> first_some f ys)"
  by (induction xs) (auto split: option.splits)

lemma ends_digits_rx:
  "ends digits_rx s =
     (case s of [] \<Rightarrow> [] | d # rest \<Rightarrow> if is_digit d then ends (Star (Cls is_digit)) rest else [])"
  by (cases s) (simp_all add: digits_rx_def digit_def)

lemma first_digits:
  "first_some (\<lambda>s3. Some (s1, s2, s3)) (ends digits_rx s2) =
     (case s2 of
        [] \<Rightarrow> None
      | d # rest \<Rightarrow> if is_digit d then Some (s1, s2, dropWhile is_digit rest) else None)"
proof (cases s2)
  case Nil
  then show ?thesis by (simp add: ends_digits_rx)
next
  case (Cons d rest)
  obtain ts where "ends (Star (Cls is_digit)) rest = dropWhile is_digit rest # ts"
    using ends_Star_Cls_hd by blast
  then show ?thesis using Cons by (simp add: ends_digits_rx)
qed

lemma first_space:
  "first_some (\<lambda>s2. first_some (\<lambda>s3. Some (s1, s2, s3)) (ends digits_rx s2)) (ends space s1)
     = try_sep s1"
proof (cases s1)
  case Nil
  then show ?thesis by (simp add: space_def try_sep_def)
next
  case (Cons c cs)
  then show ?thesis
    by (cases cs) (simp_all add: space_def try_sep_def first_digits)
qed

lemma match_here_eq: "match_here s = first_some try_sep (rev (starts s))"
  by (simp add: match_here_def first_space ends_frames_rx)

lemma last_sep_bound:
  "last_sep s = Some e \<Longrightarrow> Suc e < length s \<and> s ! e = CHR '' '' \<and> is_digit (s ! Suc e)"
proof (induction s arbitrary: e)
  case Nil
  then show ?case by simp
next
  case (Cons c cs)
  show ?case
  proof (cases "last_sep cs")
    case None
    with Cons.prems have "e = 0" "sep_at (c # cs)" by (auto split: if_splits)
    then show ?thesis by (cases cs) auto
  next
    case (Some e')
    with Cons.prems have "e = Suc e'" by simp
    with Cons.IH [OF Some] show ?thesis by simp
  qed
qed

lemma last_sep_drop:
  assumes "last_sep s = Some e"
  shows "drop e s = CHR '' '' # s ! Suc e # drop (Suc (Suc e)) s"
proof -
  from last_sep_bound [OF assms] have e: "Suc e < length s" and sp: "s ! e = CHR '' ''" by simp_all
  have "drop e s = s ! e # drop (Suc e) s" using e by (simp add: Cons_nth_drop_Suc)
  also have "drop (Suc e) s = s ! Suc e # drop (Suc (Suc e)) s" using e by (simp add: Cons_nth_drop_Suc)
  finally show ?thesis using sp by simp
qed

lemma first_try_sep:
  "first_some try_sep (rev (starts s)) =
     (case last_sep s of None \<Rightarrow> None | Some e \<Rightarrow> try_sep (drop e s))"
proof (induction s)
  case Nil
  show ?case by (simp add: try_sep_def)
next
  case (Cons c cs)
  have step: "first_some try_sep (rev (starts (c # cs))) =
      (case first_some try_sep (rev (starts cs)) of Some y \<Rightarrow> Some y | None \<Rightarrow> try_sep (c # cs))"
    by (simp add: first_some_append split: option.splits)
  show ?case
  proof (cases "last_sep cs")
    case None
    then have "first_some try_sep (rev (starts cs)) = None" using Cons by simp
    with step have "first_some try_sep (rev (starts (c # cs))) = try_sep (c # cs)" by simp
    also have "\<dots> = (case last_sep (c # cs) of None \<Rightarrow> None | Some e \<Rightarrow> try_sep (drop e (c # cs)))"
      using None by (simp add: try_sep_def del: sep_at.simps)
    finally show ?thesis .
  next
    case (Some e)
    from last_sep_bound [OF Some] last_sep_drop [OF Some]
    obtain y where "try_sep (drop e cs) = Some y"
      by (simp add: try_sep_def)
    then show ?thesis using Some Cons step by simp
  qed
qed

lemma match_here_last_sep:
  "match_here s =
     (case last_sep s of
        None \<Rightarrow> None
      | Some e \<Rightarrow> Some (drop e s, drop (Suc e) s, dropWhile is_digit (drop (Suc (Suc e)) s)))"
proof (cases "last_sep s")
  case None
  then show ?thesis by (simp add: match_here_eq first_try_sep)
next
  case (Some e)
  from last_sep_bound [OF Some] have e: "Suc e < length s" and dig: "is_digit (s ! Suc e)" by simp_all
  have d2: "drop (Suc e) s = s ! Suc e # drop (Suc (Suc e)) s"
    using e by (simp add: Cons_nth_drop_Suc)
  have "try_sep (drop e s) = Some (drop e s, drop (Suc e) s, dropWhile is_digit (drop (Suc (Suc e)) s))"
    unfolding try_sep_def last_sep_drop [OF Some] d2 using dig by simp
  then show ?thesis using Some by (simp add: match_here_eq first_try_sep)
qed

lemma last_sep_starts: "last_sep s = None \<Longrightarrow> t \<in> set (starts s) \<Longrightarrow> last_sep t = None"
  by (induction s) (auto split: option.splits if_splits)

lemma first_some_None: "(\<And>x. x \<in> set xs \<Longrightarrow> f x = None) \<Longrightarrow> first_some f xs = None"
  by (induction xs) auto

lemma starts_hd: "\<exists>ts. starts s = s # ts"
  by (cases s) auto

lemma line_match_eq:
  "line_match l =
     (case last_sep l of
        None \<Rightarrow> None
      | Some e \<Rightarrow> Some (take e l, takeWhile is_digit (drop (Suc e) l)))"
proof (cases "last_sep l")
  case None
  have "first_some (\<lambda>s. map_option
          (\<lambda>(s1, s2, s3). (take (length s - length s1) s, take (length s2 - length s3) s2))
          (match_here s)) (starts l) = None"
    by (rule first_some_None) (simp add: match_here_last_sep last_sep_starts [OF None])
  then show ?thesis using None by (simp add: line_match_def)
next
  case (Some e)
  obtain ts where ts: "starts l = l # ts" using starts_hd by blast
  from last_sep_bound [OF Some] have e: "Suc e < length l" and dig: "is_digit (l ! Suc e)" by simp_all
  define d where "d = l ! Suc e"
  define rest where "rest = drop (Suc (Suc e)) l"
  have dr: "drop (Suc e) l = d # rest"
    using e by (simp add: Cons_nth_drop_Suc d_def rest_def)
  have len: "length l - Suc e = Suc (length rest)"
    using arg_cong [OF dr, of length] by simp
  have tk: "take (Suc (length rest) - length (dropWhile is_digit rest)) (d # rest)
          = takeWhile is_digit (d # rest)"
  proof -
    have "length (takeWhile is_digit rest) + length (dropWhile is_digit rest) = length rest"
      by (metis length_append takeWhile_dropWhile_id)
    then have "Suc (length rest) - length (dropWhile is_digit rest)
        = Suc (length (takeWhile is_digit rest))" by arith
    then show ?thesis using dig by (simp add: d_def takeWhile_eq_take [symmetric])
  qed
  have "line_match l = Some (take (length l - length (drop e l)) l,
      take (length (drop (Suc e) l) - length (dropWhile is_digit rest)) (drop (Suc e) l))"
    using Some ts by (simp add: line_match_def match_here_last_sep rest_def)
  also have "length l - length (drop e l) = e" using e by simp
  also have "length (drop (Suc e) l) = Suc (length rest)" using len by simp
  finally show ?thesis using Some tk by (simp add: dr)
qed

lemma ends_sep_nonempty: "(ends (Seq space digits_rx) s1 \<noteq> []) = sep_at s1"
proof (cases s1)
  case Nil
  then show ?thesis by (simp add: space_def)
next
  case (Cons c cs)
  show ?thesis
  proof (cases cs)
    case Nil
    then show ?thesis using Cons by (simp add: space_def ends_digits_rx)
  next
    case (Cons d rest)
    obtain ts where "ends (Star (Cls is_digit)) rest = dropWhile is_digit rest # ts"
      using ends_Star_Cls_hd by blast
    then show ?thesis using Cons \<open>s1 = c # cs\<close> by (simp add: space_def ends_digits_rx)
  qed
qed

lemma last_sep_iff: "(last_sep s \<noteq> None) = (\<exists>t \<in> set (starts s). sep_at t)"
  by (induction s) (auto split: option.splits)

lemma ends_detect_rx: "(ends detect_rx t \<noteq> []) = (last_sep t \<noteq> None)"
proof -
  have "(ends detect_rx t \<noteq> []) = (\<exists>s1 \<in> set (starts t). ends (Seq space digits_rx) s1 \<noteq> [])"
    unfolding detect_rx_def ends.simps(2) [of frames_rx] ends_frames_rx by auto
  then show ?thesis unfolding ends_sep_nonempty last_sep_iff .
qed

lemma self_in_starts: "s \<in> set (starts s)"
  by (cases s) auto

lemma rx_test_detect: "rx_test detect_rx s = (last_sep s \<noteq> None)"
proof -
  have "rx_test detect_rx s = (\<exists>t \<in> set (starts s). last_sep t \<noteq> None)"
    by (simp add: rx_test_def list_ex_iff ends_detect_rx)
  also have "\<dots> = (last_sep s \<noteq> None)"
    using self_in_starts [of s] last_sep_starts [of s] by metis
  finally show ?thesis .
qed

section \<open>The operations of the thread builder\<close>

lemma finish_simps:
  "samples (finish st) = samples st"
  "frameTable (finish st) = frameTable st"
  "stackTable (finish st) = stackTable st"
  "stringTable (finish st) = stringTable st"
  by (simp_all add: finish_def gecko_thread.truncate_def)

lemma frame_hit: "frameMap st l = Some f \<Longrightarrow> getOrCreateFrame l st = (f, st)"
  by (simp add: getOrCreateFrame_def)

lemma frame_miss:
  "frameMap st l = None \<Longrightarrow>
   getOrCreateFrame l st =
     (length (frameTable st),
      st\<lparr>stringTable := stringTable st @ [strip_java l],
         frameTable := frameTable st @
           [\<lparr>location = length (stringTable st), relevantForJS = False, innerWindowID = 0,
             implementation = None, optimizations = None, line = None, column = None,
             category = categorize l, subcategory = None\<rparr>],
         frameMap := (frameMap st)(l \<mapsto> length (frameTable st))\<rparr>)"
  by (simp add: getOrCreateFrame_def Let_def)

lemma stack_hit:
  "stackMap st (stack_key f p) = Some k \<Longrightarrow> getOrCreateStack f p st = (k, st)"
  by (simp add: getOrCreateStack_def)

lemma stack_miss:
  "stackMap st (stack_key f p) = None \<Longrightarrow>
   getOrCreateStack f p st =
     (length (stackTable st),
      st\<lparr>stackTable := stackTable st @ [(p, f)],
         stackMap := (stackMap st)(stack_key f p \<mapsto> length (stackTable st))\<rparr>)"
  by (simp add: getOrCreateStack_def Let_def)

lemma frame_stored: "getOrCreateFrame l st = (f, st1) \<Longrightarrow> frameMap st1 l = Some f"
  by (cases "frameMap st l") (auto simp: frame_hit frame_miss)


lemma ext_refl: "ext a a"
  by (simp add: ext_def)

lemma ext_trans: "ext a b \<Longrightarrow> ext b c \<Longrightarrow> ext a c"
  by (auto simp: ext_def intro: map_le_trans)

lemma ext_frame: "getOrCreateFrame l st = (f, st1) \<Longrightarrow> ext st st1"
  by (cases "frameMap st l") (auto simp: frame_hit frame_miss ext_def map_le_def)

lemma ext_stack: "getOrCreateStack f p st = (k, st1) \<Longrightarrow> ext st st1"
  by (cases "stackMap st (stack_key f p)") (auto simp: stack_hit stack_miss ext_def map_le_def)

lemma ext_reduce: "reduce_stack arr p st = (s, st1) \<Longrightarrow> ext st st1"
proof (induction arr arbitrary: p st)
  case Nil
  then show ?case by (simp add: ext_refl)
next
  case (Cons l rest)
  obtain f sta where a: "getOrCreateFrame l st = (f, sta)" by (cases "getOrCreateFrame l st")
  obtain k stb where b: "getOrCreateStack f p sta = (k, stb)" by (cases "getOrCreateStack f p sta")
  from Cons.prems a b have "reduce_stack rest (Some k) stb = (s, st1)" by simp
  then have "ext stb st1" by (rule Cons.IH)
  with ext_frame [OF a] ext_stack [OF b] show ?case by (blast intro: ext_trans)
qed

lemma ext_frameMap: "ext a b \<Longrightarrow> frameMap a l = Some f \<Longrightarrow> frameMap b l = Some f"
  by (auto simp: ext_def map_le_def dom_def)



lemma ext_addSample: "ext st (addSample t arr st)"
proof -
  obtain s st1 where r: "reduce_stack arr None st = (s, st1)" by (cases "reduce_stack arr None st")
  then show ?thesis using ext_reduce [OF r] by (simp add: addSample_def ext_def)
qed

lemma ext_fold_addSample: "ext st (fold (\<lambda>(t, arr). addSample t arr) calls st)"
proof (induction calls arbitrary: st)
  case Nil
  show ?case by (simp add: ext_refl)
next
  case (Cons c calls)
  obtain t arr where "c = (t, arr)" by (cases c)
  then show ?case using ext_addSample [of st t arr] Cons [of "addSample t arr st"]
    by (auto intro: ext_trans)
qed

text \<open>
  Claim C6. Frame interning is idempotent on the raw label. Once a raw label \<open>l\<close> has
  been interned with FrameId \<open>f\<close>, interning the same raw label again, directly or
  after any further \<open>addSample\<close> calls of the same conversion, returns \<open>f\<close> and leaves
  the whole builder state unchanged. So the internings together append one
  \<open>frameTable\<close> row: the first one does, when the label is new, and no later one does.
  The key is the raw label, whatever it ends with.
\<close>

theorem frame_interning_idempotent:
  assumes "getOrCreateFrame l st = (f, st1)"
    and "st2 = fold (\<lambda>(t, arr). addSample t arr) calls st1"
  shows "getOrCreateFrame l st1 = (f, st1)
       \<and> getOrCreateFrame l st2 = (f, st2)
       \<and> length (frameTable st1) =
           (if frameMap st l = None then Suc (length (frameTable st)) else length (frameTable st))"
proof -
  have "ext st1 st2" unfolding assms(2) by (rule ext_fold_addSample)
  then have "frameMap st2 l = Some f" using frame_stored [OF assms(1)] by (rule ext_frameMap)
  then have "getOrCreateFrame l st2 = (f, st2)" by (rule frame_hit)
  moreover have "length (frameTable st1) =
      (if frameMap st l = None then Suc (length (frameTable st)) else length (frameTable st))"
    using assms(1) by (cases "frameMap st l") (auto simp: frame_hit frame_miss)
  moreover have "getOrCreateFrame l st1 = (f, st1)"
    using frame_stored [OF assms(1)] by (rule frame_hit)
  ultimately show ?thesis by simp
qed

theorem frame_interning_idempotent_witness:
  "fst (getOrCreateFrame ''foo_[j]'' (createThread ''MainThread'' 0 0)) = 0
   \<and> fst (getOrCreateFrame ''foo_[j]''
          (snd (getOrCreateFrame ''foo_[j]'' (createThread ''MainThread'' 0 0)))) = 0
   \<and> fst (getOrCreateFrame ''foo_[j]''
          (fold (\<lambda>(t, arr). addSample t arr) [(0, [''bar'', ''foo_[j]''])]
             (snd (getOrCreateFrame ''foo_[j]'' (createThread ''MainThread'' 0 0))))) = 0
   \<and> length (frameTable (snd (getOrCreateFrame ''foo_[j]''
          (snd (getOrCreateFrame ''foo_[j]'' (createThread ''MainThread'' 0 0)))))) = 1"
proof -
  let ?st = "createThread ''MainThread'' 0 0"
  let ?st1 = "snd (getOrCreateFrame ''foo_[j]'' ?st)"
  have h: "getOrCreateFrame ''foo_[j]'' ?st = (0, ?st1)"
    by (simp add: getOrCreateFrame_def createThread_def Let_def)
  have e: "frameMap ?st ''foo_[j]'' = None" "length (frameTable ?st) = 0"
    by (simp_all add: createThread_def)
  note r = frame_interning_idempotent [OF h refl, of "[(0, [''bar'', ''foo_[j]''])]"]
  note r1 = conjunct1 [OF r]
  note r2 = conjunct1 [OF conjunct2 [OF r]]
  note r3 = conjunct2 [OF conjunct2 [OF r]]
  have a: "fst (getOrCreateFrame ''foo_[j]'' ?st) = 0"
    by (subst h) simp
  have b: "fst (getOrCreateFrame ''foo_[j]'' ?st1) = 0"
    by (subst r1) simp
  have c: "fst (getOrCreateFrame ''foo_[j]''
          (fold (\<lambda>(t, arr). addSample t arr) [(0, [''bar'', ''foo_[j]''])] ?st1)) = 0"
    by (subst r2) simp
  have "length (frameTable ?st1) = 1" using r3 e by simp
  then have d: "length (frameTable (snd (getOrCreateFrame ''foo_[j]'' ?st1))) = 1"
    by (subst r1) simp
  from a b c d show ?thesis by blast
qed

section \<open>Suffix and substring tests\<close>

lemma endsWith_iff: "endsWith suf s = (\<exists>b. s = b @ suf)"
proof
  assume "endsWith suf s"
  then have "s = take (length s - length suf) s @ suf"
    by (metis append_take_drop_id endsWith_def)
  then show "\<exists>b. s = b @ suf" ..
next
  assume "\<exists>b. s = b @ suf"
  then show "endsWith suf s" by (auto simp: endsWith_def)
qed

lemma startsWith_iff: "startsWith pre s = (\<exists>v. s = pre @ v)"
proof
  assume "startsWith pre s"
  then have "s = pre @ drop (length pre) s"
    by (metis append_take_drop_id startsWith_def)
  then show "\<exists>v. s = pre @ v" ..
next
  assume "\<exists>v. s = pre @ v"
  then show "startsWith pre s" by (auto simp: startsWith_def)
qed

lemma js_includes_iff: "js_includes sub s = (\<exists>u v. s = u @ sub @ v)"
proof (induction s)
  case Nil
  show ?case by auto
next
  case (Cons c cs)
  show ?case
  proof
    assume "js_includes sub (c # cs)"
    then consider "startsWith sub (c # cs)" | "js_includes sub cs" by auto
    then show "\<exists>u v. c # cs = u @ sub @ v"
    proof cases
      case 1
      then obtain v where "c # cs = sub @ v" by (auto simp: startsWith_iff)
      then have "c # cs = [] @ sub @ v" by simp
      then show ?thesis by blast
    next
      case 2
      then obtain u v where "cs = u @ sub @ v" using Cons by auto
      then have "c # cs = (c # u) @ sub @ v" by simp
      then show ?thesis by blast
    qed
  next
    assume "\<exists>u v. c # cs = u @ sub @ v"
    then obtain u v where uv: "c # cs = u @ sub @ v" by blast
    show "js_includes sub (c # cs)"
    proof (cases u)
      case Nil
      then have "startsWith sub (c # cs)" using uv by (auto simp: startsWith_iff)
      then show ?thesis by simp
    next
      case (Cons a u')
      then have "cs = u' @ sub @ v" using uv by simp
      then have "js_includes sub cs" using Cons.IH by blast
      then show ?thesis by simp
    qed
  qed
qed

lemma strip_java_marked: "strip_java (b @ ''_[j]'') = b"
  by (simp add: strip_java_def endsWith_iff)

lemma strip_java_plain: "\<not> (\<exists>b. l = b @ ''_[j]'') \<Longrightarrow> strip_java l = l"
  by (simp add: strip_java_def endsWith_iff)

section \<open>Lines of the shape frames, space, digits, non-digits\<close>

lemma last_sep_no_digit: "\<forall>c \<in> set xs. \<not> is_digit c \<Longrightarrow> last_sep xs = None"
proof (induction xs)
  case Nil
  show ?case by simp
next
  case (Cons c cs)
  then have "last_sep cs = None" by simp
  moreover have "\<not> sep_at (c # cs)" using Cons.prems by (cases cs) auto
  ultimately show ?case by simp
qed

lemma space_not_digit: "\<not> is_digit (CHR '' '')"
  by (simp add: is_digit_def)

lemma last_sep_digits:
  assumes "\<forall>c \<in> set ds. is_digit c" and "\<forall>c \<in> set ex. \<not> is_digit c"
  shows "last_sep (ds @ ex) = None"
  using assms(1)
proof (induction ds)
  case Nil
  show ?case using assms(2) by (simp add: last_sep_no_digit)
next
  case (Cons d ds)
  then have "last_sep (ds @ ex) = None" by simp
  moreover have "d \<noteq> CHR '' ''" using Cons.prems space_not_digit by auto
  then have "\<not> sep_at (d # ds @ ex)" by (cases "ds @ ex") auto
  ultimately show ?case by simp
qed

lemma last_sep_prepend: "last_sep t = Some e \<Longrightarrow> last_sep (fr @ t) = Some (length fr + e)"
  by (induction fr) auto

lemma last_sep_shape:
  assumes "ds \<noteq> []" and "\<forall>c \<in> set ds. is_digit c" and "\<forall>c \<in> set ex. \<not> is_digit c"
  shows "last_sep (fr @ CHR '' '' # ds @ ex) = Some (length fr)"
proof -
  obtain d ds' where ds: "ds = d # ds'" using assms(1) by (cases ds) auto
  have "last_sep (ds @ ex) = None" using assms(2,3) by (rule last_sep_digits)
  moreover have "sep_at (CHR '' '' # ds @ ex)" using ds assms(2) by simp
  ultimately have "last_sep (CHR '' '' # ds @ ex) = Some 0" by simp
  from last_sep_prepend [OF this, of fr] show ?thesis by simp
qed

lemma line_match_shape:
  assumes "ds \<noteq> []" and "\<forall>c \<in> set ds. is_digit c" and "\<forall>c \<in> set ex. \<not> is_digit c"
  shows "line_match (fr @ CHR '' '' # ds @ ex) = Some (fr, ds)"
proof -
  have "takeWhile is_digit ex = []" using assms(3) by (cases ex) auto
  then have "takeWhile is_digit (ds @ ex) = ds" using assms(2) by simp
  then show ?thesis using last_sep_shape [OF assms, of fr] by (simp add: line_match_eq)
qed

section \<open>The sample loop\<close>




lemma split_js_nonempty: "split_js sep s \<noteq> []"
  by (induction s) (auto split: list.splits)





section \<open>One line of input\<close>

lemma line_match_Nil: "line_match [] = None"
  by (simp add: line_match_eq)

lemma convert_line_skip:
  "l \<noteq> [] \<Longrightarrow> line_match l = None \<Longrightarrow> convert_line l c = c\<lparr>console := console c @ [l]\<rparr>"
  by (simp add: convert_line_def)

lemma convert_line_zero:
  "line_match l = Some (fr, d) \<Longrightarrow> parseInt d = 0 \<Longrightarrow> convert_line l c = c"
  by (auto simp: convert_line_def)


text \<open>
  Claim C9. A line whose weight field is the digit 0 (any text, a space, \<open>0\<close>, such as
  \<open>x 0\<close>) is matched by the parser, with the text before the space as the frames and
  \<open>0\<close> as the weight, and converting it changes nothing at all: no sample, no row of
  \<open>frameTable\<close>, \<open>stackTable\<close> or \<open>stringTable\<close>, no entry in the two maps, and
  nothing written to the console.
\<close>

theorem zero_weight_line:
  "line_match (fr @ '' 0'') = Some (fr, ''0'') \<and> convert_line (fr @ '' 0'') c = c"
proof -
  have m: "line_match (fr @ CHR '' '' # ''0'' @ []) = Some (fr, ''0'')"
    by (rule line_match_shape) (simp_all add: is_digit_def)
  have "parseInt ''0'' = 0" by (simp add: parseInt_def digit_val_def)
  with m show ?thesis by (simp add: convert_line_zero)
qed

theorem zero_weight_line_witness:
  "line_match ''x 0'' = Some (''x'', ''0'') \<and> convert_line ''x 0'' initial_conv = initial_conv"
  using zero_weight_line [of "''x''" initial_conv] by simp



text \<open>
  Claim C5. When a frame label is interned for the first time, one \<open>frameTable\<close> row
  and one string are appended. If the label ends with \<open>_[j]\<close>, the row's category is
  Java and the stored string is the label without these four characters; otherwise, if
  the label does not contain \<open>::\<close>, the category is Native; otherwise it is Other. In
  the last two cases the label is stored as it is.
\<close>

theorem categorization_on_first_interning:
  assumes "frameMap st l = None"
  shows "\<exists>row stored.
           fst (getOrCreateFrame l st) = length (frameTable st) \<and>
           frameTable (snd (getOrCreateFrame l st)) = frameTable st @ [row] \<and>
           stringTable (snd (getOrCreateFrame l st)) = stringTable st @ [stored] \<and>
           location row = length (stringTable st) \<and>
           (if \<exists>b. l = b @ ''_[j]''
            then fst (CATEGORIES ! category row) = ''Java'' \<and> l = stored @ ''_[j]''
            else if \<not> (\<exists>u v. l = u @ ''::'' @ v)
            then fst (CATEGORIES ! category row) = ''Native'' \<and> stored = l
            else fst (CATEGORIES ! category row) = ''Other'' \<and> stored = l)"
proof -
  let ?row = "\<lparr>location = length (stringTable st), relevantForJS = False, innerWindowID = 0,
             implementation = None, optimizations = None, line = None, column = None,
             category = categorize l, subcategory = None\<rparr>"
  have cat: "if \<exists>b. l = b @ ''_[j]''
            then fst (CATEGORIES ! categorize l) = ''Java'' \<and> l = strip_java l @ ''_[j]''
            else if \<not> (\<exists>u v. l = u @ ''::'' @ v)
            then fst (CATEGORIES ! categorize l) = ''Native'' \<and> strip_java l = l
            else fst (CATEGORIES ! categorize l) = ''Other'' \<and> strip_java l = l"
  proof (cases "\<exists>b. l = b @ ''_[j]''")
    case True
    then obtain b where b: "l = b @ ''_[j]''" by blast
    have "categorize l = JAVA_CATEGORY_INDEX" using True by (simp add: categorize_def endsWith_iff)
    moreover have "strip_java l = b" unfolding b by (rule strip_java_marked)
    ultimately show ?thesis using True b by (simp add: CATEGORIES_def JAVA_CATEGORY_INDEX_def)
  next
    case False
    then have s: "strip_java l = l" by (rule strip_java_plain)
    show ?thesis
    proof (cases "\<exists>u v. l = u @ ''::'' @ v")
      case True
      then have "categorize l = OTHER_CATEGORY_INDEX"
        using False by (simp add: categorize_def endsWith_iff js_includes_iff)
      then show ?thesis using False True s by (simp add: CATEGORIES_def OTHER_CATEGORY_INDEX_def)
    next
      case nc: False
      then have "categorize l = NATIVE_CATEGORY_INDEX"
        using False by (simp add: categorize_def endsWith_iff js_includes_iff)
      then show ?thesis using False nc s by (simp add: CATEGORIES_def NATIVE_CATEGORY_INDEX_def)
    qed
  qed
  have "fst (getOrCreateFrame l st) = length (frameTable st)"
    and "frameTable (snd (getOrCreateFrame l st)) = frameTable st @ [?row]"
    and "stringTable (snd (getOrCreateFrame l st)) = stringTable st @ [strip_java l]"
    and "location ?row = length (stringTable st)"
    by (simp_all add: frame_miss [OF assms])
  moreover have "category ?row = categorize l" by simp
  ultimately show ?thesis using cat by (intro exI [of _ ?row] exI [of _ "strip_java l"]) presburger
qed

theorem categorization_on_first_interning_witness:
  "fst (CATEGORIES ! category (last (frameTable (snd (getOrCreateFrame ''foo_[j]'' (createThread ''MainThread'' 0 0))))))
     = ''Java''
   \<and> last (stringTable (snd (getOrCreateFrame ''foo_[j]'' (createThread ''MainThread'' 0 0)))) = ''foo''
   \<and> fst (CATEGORIES ! category (last (frameTable (snd (getOrCreateFrame ''foo::bar'' (createThread ''MainThread'' 0 0))))))
     = ''Other''
   \<and> last (stringTable (snd (getOrCreateFrame ''foo::bar'' (createThread ''MainThread'' 0 0)))) = ''foo::bar''
   \<and> fst (CATEGORIES ! category (last (frameTable (snd (getOrCreateFrame ''foo'' (createThread ''MainThread'' 0 0))))))
     = ''Native''
   \<and> last (stringTable (snd (getOrCreateFrame ''foo'' (createThread ''MainThread'' 0 0)))) = ''foo''"
proof -
  let ?st = "createThread ''MainThread'' 0 0"
  have h: "frameMap ?st l = None" for l by (simp add: createThread_def)
  have java: "\<exists>b. ''foo_[j]'' = b @ ''_[j]''"
    by (rule exI [of _ "''foo''"]) simp
  have other1: "\<not> (\<exists>b. ''foo::bar'' = b @ ''_[j]'')"
    by (simp add: endsWith_iff [symmetric] endsWith_def)
  have other2: "\<exists>u v. ''foo::bar'' = u @ ''::'' @ v"
    using js_includes_iff [of "''::''" "''foo::bar''"] by (simp add: startsWith_def)
  have native1: "\<not> (\<exists>b. ''foo'' = b @ ''_[j]'')"
    by (simp add: endsWith_iff [symmetric] endsWith_def)
  have native2: "\<not> (\<exists>u v. ''foo'' = u @ ''::'' @ v)"
    using js_includes_iff [of "''::''" "''foo''"] by (simp add: startsWith_def)
  have other3: "\<not> \<not> (\<exists>u v. ''foo::bar'' = u @ ''::'' @ v)" using other2 by blast
  from categorization_on_first_interning [OF h, of "''foo_[j]''"]
  obtain row1 stored1 where
    f1: "frameTable (snd (getOrCreateFrame ''foo_[j]'' ?st)) = frameTable ?st @ [row1]"
    and s1: "stringTable (snd (getOrCreateFrame ''foo_[j]'' ?st)) = stringTable ?st @ [stored1]"
    and c1: "fst (CATEGORIES ! category row1) = ''Java''"
    and e1: "''foo_[j]'' = stored1 @ ''_[j]''"
    unfolding if_P [OF java] by blast
  have "''foo'' @ ''_[j]'' = stored1 @ ''_[j]''" using e1 by simp
  then have "stored1 = ''foo''" by (simp only: append_same_eq)
  then have a: "fst (CATEGORIES ! category (last (frameTable (snd (getOrCreateFrame ''foo_[j]'' ?st))))) = ''Java''
      \<and> last (stringTable (snd (getOrCreateFrame ''foo_[j]'' ?st))) = ''foo''"
    by (simp add: f1 s1 c1)
  from categorization_on_first_interning [OF h, of "''foo::bar''"]
  obtain row2 stored2 where
    "frameTable (snd (getOrCreateFrame ''foo::bar'' ?st)) = frameTable ?st @ [row2]"
    "stringTable (snd (getOrCreateFrame ''foo::bar'' ?st)) = stringTable ?st @ [stored2]"
    "fst (CATEGORIES ! category row2) = ''Other'' \<and> stored2 = ''foo::bar''"
    unfolding if_not_P [OF other1] if_not_P [OF other3] by blast
  then have b: "fst (CATEGORIES ! category (last (frameTable (snd (getOrCreateFrame ''foo::bar'' ?st))))) = ''Other''
      \<and> last (stringTable (snd (getOrCreateFrame ''foo::bar'' ?st))) = ''foo::bar''"
    by simp
  from categorization_on_first_interning [OF h, of "''foo''"]
  obtain row3 stored3 where
    "frameTable (snd (getOrCreateFrame ''foo'' ?st)) = frameTable ?st @ [row3]"
    "stringTable (snd (getOrCreateFrame ''foo'' ?st)) = stringTable ?st @ [stored3]"
    "fst (CATEGORIES ! category row3) = ''Native'' \<and> stored3 = ''foo''"
    unfolding if_not_P [OF native1] if_P [OF native2] by blast
  then have c: "fst (CATEGORIES ! category (last (frameTable (snd (getOrCreateFrame ''foo'' ?st))))) = ''Native''
      \<and> last (stringTable (snd (getOrCreateFrame ''foo'' ?st))) = ''foo''"
    by simp
  from a b c show ?thesis by blast
qed

section \<open>The loop over the lines\<close>

lemma sample_loop_agree:
  "thread c = thread c' \<Longrightarrow> timeStamp c = timeStamp c' \<Longrightarrow>
   thread (sample_loop n fr c) = thread (sample_loop n fr c')
   \<and> timeStamp (sample_loop n fr c) = timeStamp (sample_loop n fr c')"
proof (induction n arbitrary: c c')
  case 0
  then show ?case by simp
next
  case (Suc n)
  let ?arr = "split_js (CHR '';'') fr"
  let ?c1 = "c\<lparr>thread := addSample (timeStamp c) ?arr (thread c), timeStamp := timeStamp c + 1\<rparr>"
  let ?c1' = "c'\<lparr>thread := addSample (timeStamp c') ?arr (thread c'), timeStamp := timeStamp c' + 1\<rparr>"
  have "thread ?c1 = thread ?c1'" and "timeStamp ?c1 = timeStamp ?c1'" using Suc.prems by simp_all
  then have "thread (sample_loop n fr ?c1) = thread (sample_loop n fr ?c1')
      \<and> timeStamp (sample_loop n fr ?c1) = timeStamp (sample_loop n fr ?c1')" by (rule Suc.IH)
  then show ?case by (simp add: split_js_nonempty)
qed

lemma sample_loop_console: "console (sample_loop n fr c) = console c"
  by (induction n arbitrary: c) (simp_all add: split_js_nonempty)

lemma convert_line_agree:
  assumes "thread c = thread c'" and "timeStamp c = timeStamp c'"
  shows "thread (convert_line l c) = thread (convert_line l c')
       \<and> timeStamp (convert_line l c) = timeStamp (convert_line l c')"
proof (cases "l = [] \<or> line_match l = None")
  case True
  then show ?thesis using assms by (auto simp: convert_line_def)
next
  case False
  then obtain fr d where "line_match l = Some (fr, d)" by auto
  then show ?thesis using False sample_loop_agree [OF assms] by (simp add: convert_line_def)
qed

lemma convert_line_unmatched:
  "line_match l = None \<Longrightarrow> thread (convert_line l c) = thread c \<and> timeStamp (convert_line l c) = timeStamp c"
  by (simp add: convert_line_def)

lemma convert_line_console:
  "console (convert_line l c) = console c @ (if l \<noteq> [] \<and> line_match l = None then [l] else [])"
  by (auto simp: convert_line_def sample_loop_console)

lemma fold_skip:
  "thread c = thread c' \<Longrightarrow> timeStamp c = timeStamp c' \<Longrightarrow>
   thread (fold convert_line ls c) = thread (fold convert_line (filter (\<lambda>l. line_match l \<noteq> None) ls) c')
   \<and> timeStamp (fold convert_line ls c)
       = timeStamp (fold convert_line (filter (\<lambda>l. line_match l \<noteq> None) ls) c')"
proof (induction ls arbitrary: c c')
  case Nil
  then show ?case by simp
next
  case (Cons l ls)
  show ?case
  proof (cases "line_match l")
    case None
    then have "thread (convert_line l c) = thread c'" "timeStamp (convert_line l c) = timeStamp c'"
      using Cons.prems convert_line_unmatched by simp_all
    from Cons.IH [OF this] None show ?thesis by simp
  next
    case (Some y)
    have "thread (convert_line l c) = thread (convert_line l c')"
      "timeStamp (convert_line l c) = timeStamp (convert_line l c')"
      using convert_line_agree [OF Cons.prems] by simp_all
    from Cons.IH [OF this] Some show ?thesis by simp
  qed
qed

lemma fold_console:
  "console (fold convert_line ls c) = console c @ filter (\<lambda>l. l \<noteq> [] \<and> line_match l = None) ls"
  by (induction ls arbitrary: c) (simp_all add: convert_line_console)

lemma fold_all_unmatched:
  "\<forall>l \<in> set ls. line_match l = None \<Longrightarrow>
   thread (fold convert_line ls c) = thread c \<and> timeStamp (fold convert_line ls c) = timeStamp c"
  by (induction ls arbitrary: c) (simp_all add: convert_line_unmatched)

lemma threads_convert:
  "threads (fst (convertFlameGraphProfile p)) = [finish (thread (convert_lines (split_js (CHR 0x0A) p)))]"
  by (simp add: convertFlameGraphProfile_def Let_def)

lemma console_convert:
  "snd (convertFlameGraphProfile p) = console (convert_lines (split_js (CHR 0x0A) p))"
  by (simp add: convertFlameGraphProfile_def Let_def)

section \<open>Timestamps\<close>






section \<open>Structural soundness of the tables\<close>

lemma wf_frame_miss:
  assumes "wf_builder st" and "frameMap st l = None"
  shows "wf_builder (snd (getOrCreateFrame l st))"
proof -
  let ?st1 = "snd (getOrCreateFrame l st)"
  have "stacks_ok ?st1" using assms by (auto simp: frame_miss wf_builder_def stacks_ok_def)
  moreover have "frames_ok ?st1" using assms by (auto simp: frame_miss wf_builder_def frames_ok_def)
  moreover have "samples_ok ?st1" using assms by (auto simp: frame_miss wf_builder_def samples_ok_def)
  moreover have "maps_ok ?st1" using assms
    by (auto simp: frame_miss wf_builder_def maps_ok_def intro: less_SucI)
  ultimately show ?thesis by (simp add: wf_builder_def)
qed

lemma wf_frame:
  assumes "wf_builder st" and "getOrCreateFrame l st = (f, st1)"
  shows "wf_builder st1 \<and> f < length (frameTable st1) \<and> stackTable st1 = stackTable st"
proof (cases "frameMap st l")
  case None
  have "wf_builder st1" using wf_frame_miss [OF assms(1) None] assms(2) by simp
  moreover have "f < length (frameTable st1) \<and> stackTable st1 = stackTable st"
    using assms(2) by (auto simp: frame_miss [OF None])
  ultimately show ?thesis by simp
next
  case (Some g)
  from assms(2) [unfolded frame_hit [OF Some]] assms(1) Some show ?thesis
    by (auto simp: wf_builder_def maps_ok_def)
qed

lemma wf_stack_miss:
  assumes "wf_builder st" and "stackMap st (stack_key f p) = None"
    and "f < length (frameTable st)" and "prefix_ok p st"
  shows "wf_builder (snd (getOrCreateStack f p st))"
proof -
  let ?st1 = "snd (getOrCreateStack f p st)"
  have "stacks_ok ?st1" using assms
    by (auto simp: stack_miss wf_builder_def stacks_ok_def prefix_ok_def nth_append)
  moreover have "frames_ok ?st1" using assms by (auto simp: stack_miss wf_builder_def frames_ok_def)
  moreover have "samples_ok ?st1" using assms
    by (fastforce simp: stack_miss wf_builder_def samples_ok_def)
  moreover have "maps_ok ?st1" using assms
    by (auto simp: stack_miss wf_builder_def maps_ok_def intro: less_SucI)
  ultimately show ?thesis by (simp add: wf_builder_def)
qed

lemma wf_stack:
  assumes "wf_builder st" and "getOrCreateStack f p st = (k, st1)"
    and "f < length (frameTable st)" and "prefix_ok p st"
  shows "wf_builder st1 \<and> k < length (stackTable st1)"
proof (cases "stackMap st (stack_key f p)")
  case None
  have "wf_builder st1" using wf_stack_miss [OF assms(1) None assms(3,4)] assms(2) by simp
  moreover have "k < length (stackTable st1)"
    using assms(2) by (auto simp: stack_miss [OF None])
  ultimately show ?thesis by simp
next
  case (Some g)
  from assms(2) [unfolded stack_hit [OF Some]] assms(1) Some show ?thesis
    by (auto simp: wf_builder_def maps_ok_def)
qed

lemma wf_reduce:
  assumes "wf_builder st" and "reduce_stack arr p st = (s, st1)" and "prefix_ok p st"
  shows "wf_builder st1 \<and> prefix_ok s st1 \<and> (arr \<noteq> [] \<longrightarrow> s \<noteq> None)"
  using assms
proof (induction arr arbitrary: p st)
  case Nil
  then show ?case by simp
next
  case (Cons l rest)
  obtain f sta where a: "getOrCreateFrame l st = (f, sta)" by (cases "getOrCreateFrame l st")
  obtain k stb where b: "getOrCreateStack f p sta = (k, stb)" by (cases "getOrCreateStack f p sta")
  from Cons.prems(2) a b have r: "reduce_stack rest (Some k) stb = (s, st1)" by simp
  from wf_frame [OF Cons.prems(1) a]
  have wa: "wf_builder sta" and fa: "f < length (frameTable sta)" and sa: "stackTable sta = stackTable st"
    by simp_all
  have "prefix_ok p sta" using Cons.prems(3) by (simp add: prefix_ok_def sa)
  from wf_stack [OF wa b fa this] have wb: "wf_builder stb" and kb: "k < length (stackTable stb)"
    by simp_all
  have pk: "prefix_ok (Some k) stb" using kb by (simp add: prefix_ok_def)
  from Cons.IH [OF wb r pk] have w1: "wf_builder st1" and p1: "prefix_ok s st1" by simp_all
  have "s \<noteq> None"
  proof (cases rest)
    case Nil
    then show ?thesis using r by auto
  next
    case (Cons x xs)
    then show ?thesis using Cons.IH [OF wb r pk] by simp
  qed
  with w1 p1 show ?case by simp
qed

lemma wf_addSample:
  assumes "wf_builder st" and "arr \<noteq> []"
  shows "wf_builder (addSample t arr st)"
proof -
  obtain s st1 where r: "reduce_stack arr None st = (s, st1)" by (cases "reduce_stack arr None st")
  have "prefix_ok None st" by (simp add: prefix_ok_def)
  from wf_reduce [OF assms(1) r this] assms(2)
  have w: "wf_builder st1" and p: "prefix_ok s st1" and n: "s \<noteq> None" by simp_all
  then show ?thesis using r
    by (auto simp: addSample_def wf_builder_def prefix_ok_def stacks_ok_def frames_ok_def
        samples_ok_def maps_ok_def)
qed

lemma wf_sample_loop: "wf_builder (thread c) \<Longrightarrow> wf_builder (thread (sample_loop n fr c))"
proof (induction n arbitrary: c)
  case 0
  then show ?case by simp
next
  case (Suc n)
  let ?arr = "split_js (CHR '';'') fr"
  let ?c1 = "c\<lparr>thread := addSample (timeStamp c) ?arr (thread c), timeStamp := timeStamp c + 1\<rparr>"
  have "wf_builder (thread ?c1)" using Suc.prems by (simp add: wf_addSample split_js_nonempty)
  then have "wf_builder (thread (sample_loop n fr ?c1))" by (rule Suc.IH)
  then show ?case by (simp add: split_js_nonempty)
qed

lemma wf_convert_line: "wf_builder (thread c) \<Longrightarrow> wf_builder (thread (convert_line l c))"
  by (auto simp: convert_line_def wf_sample_loop split: option.splits)

lemma wf_fold: "wf_builder (thread c) \<Longrightarrow> wf_builder (thread (fold convert_line ls c))"
  by (induction ls arbitrary: c) (simp_all add: wf_convert_line)

lemma wf_convert_lines: "wf_builder (thread (convert_lines ls))"
  unfolding convert_lines_def
  by (rule wf_fold)
    (simp add: wf_builder_def stacks_ok_def frames_ok_def samples_ok_def maps_ok_def
      initial_conv_def createThread_def)

lemma root_within_mono: "root_within tbl n i \<Longrightarrow> n \<le> m \<Longrightarrow> root_within tbl m i"
proof (induction n arbitrary: m i)
  case 0
  then show ?case by simp
next
  case (Suc n)
  then obtain m' where m: "m = Suc m'" and le: "n \<le> m'" by (cases m) auto
  from Suc.prems(1) Suc.IH le show ?case unfolding m by (auto split: option.splits)
qed

lemma root_within_earlier:
  assumes "\<forall>i < length tbl. case fst (tbl ! i) of None \<Rightarrow> True | Some p \<Rightarrow> p < i"
  shows "i < length tbl \<Longrightarrow> root_within tbl (Suc i) i"
proof (induction i rule: less_induct)
  case (less i)
  show ?case
  proof (cases "fst (tbl ! i)")
    case None
    then show ?thesis using less.prems by simp
  next
    case (Some p)
    then have p: "p < i" using assms less.prems by (auto split: option.splits)
    then have "root_within tbl (Suc p) p" using less by simp
    then have "root_within tbl i p" using root_within_mono [of tbl "Suc p" p i] p by simp
    then show ?thesis using Some less.prems by simp
  qed
qed

text \<open>
  Claim C8. For every input, the tables of the produced thread are structurally sound:
  the prefix of every \<open>stackTable\<close> row is \<open>null\<close> or the index of an earlier row, so
  that following the prefixes from any row reaches a root; the frame of every
  \<open>stackTable\<close> row is an index of \<open>frameTable\<close>; the location of every \<open>frameTable\<close>
  row is an index of \<open>stringTable\<close>; and the stack of every sample is an index of
  \<open>stackTable\<close>.
\<close>

theorem tables_structurally_sound:
  "\<exists>t. threads (fst (convertFlameGraphProfile p)) = [t]
     \<and> (\<forall>i < length (stackTable t).
          (case fst (stackTable t ! i) of None \<Rightarrow> True | Some pre \<Rightarrow> pre < i)
          \<and> root_within (stackTable t) (Suc i) i
          \<and> snd (stackTable t ! i) < length (frameTable t))
     \<and> (\<forall>i < length (frameTable t). location (frameTable t ! i) < length (stringTable t))
     \<and> (\<forall>i < length (samples t).
          case fst (samples t ! i) of None \<Rightarrow> False | Some k \<Rightarrow> k < length (stackTable t))"
proof -
  let ?st = "thread (convert_lines (split_js (CHR 0x0A) p))"
  have w: "wf_builder ?st" by (rule wf_convert_lines)
  have e: "\<forall>i < length (stackTable ?st). case fst (stackTable ?st ! i) of None \<Rightarrow> True | Some pre \<Rightarrow> pre < i"
    using w by (auto simp: wf_builder_def stacks_ok_def split: option.splits)
  have a: "(case fst (stackTable ?st ! i) of None \<Rightarrow> True | Some pre \<Rightarrow> pre < i)
          \<and> root_within (stackTable ?st) (Suc i) i
          \<and> snd (stackTable ?st ! i) < length (frameTable ?st)"
    if "i < length (stackTable ?st)" for i
  proof -
    have "snd (stackTable ?st ! i) < length (frameTable ?st)"
      using w that by (simp add: wf_builder_def stacks_ok_def)
    with e that root_within_earlier [OF e that] show ?thesis by blast
  qed
  have b: "location (frameTable ?st ! i) < length (stringTable ?st)"
    if "i < length (frameTable ?st)" for i
    using w that by (simp add: wf_builder_def frames_ok_def)
  have c: "case fst (samples ?st ! i) of None \<Rightarrow> False | Some k \<Rightarrow> k < length (stackTable ?st)"
    if "i < length (samples ?st)" for i
  proof -
    have "samples ?st ! i \<in> set (samples ?st)" using that by simp
    then obtain k where "fst (samples ?st ! i) = Some k" "k < length (stackTable ?st)"
      using w by (auto simp: wf_builder_def samples_ok_def)
    then show ?thesis by simp
  qed
  have "threads (fst (convertFlameGraphProfile p)) = [finish ?st]" by (rule threads_convert)
  moreover have "\<forall>i < length (stackTable (finish ?st)).
          (case fst (stackTable (finish ?st) ! i) of None \<Rightarrow> True | Some pre \<Rightarrow> pre < i)
          \<and> root_within (stackTable (finish ?st)) (Suc i) i
          \<and> snd (stackTable (finish ?st) ! i) < length (frameTable (finish ?st))"
    unfolding finish_simps using a by blast
  moreover have "\<forall>i < length (frameTable (finish ?st)).
      location (frameTable (finish ?st) ! i) < length (stringTable (finish ?st))"
    unfolding finish_simps using b by blast
  moreover have "\<forall>i < length (samples (finish ?st)).
          case fst (samples (finish ?st) ! i) of None \<Rightarrow> False | Some k \<Rightarrow> k < length (stackTable (finish ?st))"
    unfolding finish_simps using c by blast
  ultimately show ?thesis by blast
qed

theorem tables_structurally_sound_witness:
  "\<exists>t. threads (fst (convertFlameGraphProfile ''a;b 1\<newline>a;c 2'')) = [t]
     \<and> stackTable t = [(None, 0), (Some 0, 1), (Some 0, 2)]
     \<and> (case fst (stackTable t ! 2) of None \<Rightarrow> True | Some pre \<Rightarrow> pre < 2)
     \<and> root_within (stackTable t) 3 2
     \<and> snd (stackTable t ! 2) < length (frameTable t)
     \<and> location (frameTable t ! 2) < length (stringTable t)
     \<and> (case fst (samples t ! 2) of None \<Rightarrow> False | Some k \<Rightarrow> k < length (stackTable t))"
proof -
  let ?p = "''a;b 1\<newline>a;c 2''"
  from tables_structurally_sound [of ?p] obtain t where
    t: "threads (fst (convertFlameGraphProfile ?p)) = [t]"
    and a: "\<forall>i < length (stackTable t).
          (case fst (stackTable t ! i) of None \<Rightarrow> True | Some pre \<Rightarrow> pre < i)
          \<and> root_within (stackTable t) (Suc i) i
          \<and> snd (stackTable t ! i) < length (frameTable t)"
    and b: "\<forall>i < length (frameTable t). location (frameTable t ! i) < length (stringTable t)"
    and c: "\<forall>i < length (samples t).
          case fst (samples t ! i) of None \<Rightarrow> False | Some k \<Rightarrow> k < length (stackTable t)"
    by blast
  have "map stackTable (threads (fst (convertFlameGraphProfile ?p))) = [[(None, 0), (Some 0, 1), (Some 0, 2)]]
      \<and> map (length \<circ> frameTable) (threads (fst (convertFlameGraphProfile ?p))) = [3]
      \<and> map (length \<circ> samples) (threads (fst (convertFlameGraphProfile ?p))) = [3]"
    by (simp add: convertFlameGraphProfile_def convert_lines_def initial_conv_def convert_line_def
      line_match_eq is_digit_def parseInt_def digit_val_def addSample_def getOrCreateFrame_def
      getOrCreateStack_def stack_key_def show_nat.simps createThread_def finish_simps digit_char_def
      numeral_2_eq_2 Let_def)
  then have s: "stackTable t = [(None, 0), (Some 0, 1), (Some 0, 2)]"
    and f: "length (frameTable t) = 3" and m: "length (samples t) = 3"
    unfolding t by simp_all
  have "(2::nat) < length (stackTable t)" using s by simp
  from a [rule_format, OF this]
  have a2: "(case fst (stackTable t ! 2) of None \<Rightarrow> True | Some pre \<Rightarrow> pre < 2)"
    "root_within (stackTable t) 3 2" "snd (stackTable t ! 2) < length (frameTable t)"
    by (simp_all add: eval_nat_numeral del: root_within.simps)
  have b2: "location (frameTable t ! 2) < length (stringTable t)" using b f by simp
  have c2: "case fst (samples t ! 2) of None \<Rightarrow> False | Some k \<Rightarrow> k < length (stackTable t)"
    using c m by simp
  from t s a2 b2 c2 show ?thesis by blast
qed

section \<open>The string table\<close>

lemma foldl_add_seen_distinct: "distinct seen \<Longrightarrow> distinct (foldl add_seen seen xs)"
  by (induction xs arbitrary: seen) (simp_all add: add_seen_def)

lemma foldl_add_seen_set: "set (foldl add_seen seen xs) = set seen \<union> set xs"
  by (induction xs arbitrary: seen) (auto simp: add_seen_def)

lemma first_seen_distinct: "distinct (first_seen xs)"
  by (simp add: first_seen_def foldl_add_seen_distinct)

lemma first_seen_set: "set (first_seen xs) = set xs"
  by (simp add: first_seen_def foldl_add_seen_set)

lemma seen_frame:
  assumes "seen_inv st seen" and "getOrCreateFrame l st = (f, st1)"
  shows "seen_inv st1 (add_seen seen l)"
proof (cases "l \<in> set seen")
  case True
  then obtain i where "i < length seen" "seen ! i = l" by (auto simp: in_set_conv_nth)
  then have "frameMap st l = Some i" using assms(1) by (simp add: seen_inv_def)
  then have "st1 = st" using assms(2) by (simp add: frame_hit)
  then show ?thesis using assms(1) True by (simp add: add_seen_def)
next
  case False
  have none: "frameMap st l = None"
  proof (cases "frameMap st l")
    case (Some i)
    then have "i < length seen \<and> seen ! i = l" using assms(1) by (simp add: seen_inv_def)
    then have "l \<in> set seen" by (auto simp: in_set_conv_nth)
    with False show ?thesis by simp
  qed simp
  have ls: "length (stringTable st) = length seen" using assms(1) by (simp add: seen_inv_def)
  have "length (map location (frameTable st)) = length [0..<length seen]"
    using assms(1) by (simp only: seen_inv_def)
  then have lf: "length (frameTable st) = length seen" by simp
  have st1: "stringTable st1 = stringTable st @ [strip_java l]"
    "map location (frameTable st1) = map location (frameTable st) @ [length (stringTable st)]"
    "frameMap st1 = (frameMap st)(l \<mapsto> length (frameTable st))"
    using assms(2) by (auto simp: frame_miss [OF none])
  have m: "(frameMap st1 l' = Some i) = (i < length (seen @ [l]) \<and> (seen @ [l]) ! i = l')" for l' i
  proof (cases "l' = l")
    case True
    have "i < length seen \<Longrightarrow> seen ! i \<noteq> l" using False by (auto simp: in_set_conv_nth)
    then show ?thesis using True lf
      by (auto simp: st1(3) nth_append less_Suc_eq)
  next
    case neq: False
    have "(frameMap st l' = Some i) = (i < length seen \<and> seen ! i = l')"
      using assms(1) by (simp add: seen_inv_def)
    then show ?thesis using neq
      by (auto simp: st1(3) nth_append less_Suc_eq)
  qed
  have "distinct (seen @ [l])" using assms(1) False by (simp add: seen_inv_def)
  moreover have "stringTable st1 = map strip_java (seen @ [l])"
    using assms(1) st1(1) by (simp add: seen_inv_def)
  moreover have "map location (frameTable st1) = [0..<length (seen @ [l])]"
    using assms(1) st1(2) ls by (simp add: seen_inv_def)
  ultimately have "seen_inv st1 (seen @ [l])" using m unfolding seen_inv_def by blast
  then show ?thesis using False by (simp add: add_seen_def)
qed

lemma seen_stack:
  assumes "seen_inv st seen" and "getOrCreateStack f p st = (k, st1)"
  shows "seen_inv st1 seen"
proof (cases "stackMap st (stack_key f p)")
  case None
  then show ?thesis using assms by (auto simp: stack_miss seen_inv_def)
next
  case (Some g)
  then show ?thesis using assms by (auto simp: stack_hit)
qed

lemma seen_reduce:
  "seen_inv st seen \<Longrightarrow> reduce_stack arr p st = (s, st1) \<Longrightarrow> seen_inv st1 (foldl add_seen seen arr)"
proof (induction arr arbitrary: p st seen)
  case Nil
  then show ?case by simp
next
  case (Cons l rest)
  obtain f sta where a: "getOrCreateFrame l st = (f, sta)" by (cases "getOrCreateFrame l st")
  obtain k stb where b: "getOrCreateStack f p sta = (k, stb)" by (cases "getOrCreateStack f p sta")
  from Cons.prems(2) a b have r: "reduce_stack rest (Some k) stb = (s, st1)" by simp
  have "seen_inv stb (add_seen seen l)"
    using seen_frame [OF Cons.prems(1) a] b by (rule seen_stack)
  from Cons.IH [OF this r] show ?case by simp
qed

lemma seen_addSample:
  assumes "seen_inv st seen"
  shows "seen_inv (addSample t arr st) (foldl add_seen seen arr)"
proof -
  obtain s st1 where r: "reduce_stack arr None st = (s, st1)" by (cases "reduce_stack arr None st")
  from seen_reduce [OF assms r] r show ?thesis by (simp add: addSample_def seen_inv_def)
qed

lemma seen_sample_loop:
  "seen_inv (thread c) seen \<Longrightarrow>
   seen_inv (thread (sample_loop n fr c))
     (foldl add_seen seen (concat (replicate n (split_js (CHR '';'') fr))))"
proof (induction n arbitrary: c seen)
  case 0
  then show ?case by simp
next
  case (Suc n)
  let ?arr = "split_js (CHR '';'') fr"
  let ?c1 = "c\<lparr>thread := addSample (timeStamp c) ?arr (thread c), timeStamp := timeStamp c + 1\<rparr>"
  have "seen_inv (thread ?c1) (foldl add_seen seen ?arr)"
    using seen_addSample [OF Suc.prems] by simp
  from Suc.IH [OF this] show ?case by (simp add: split_js_nonempty)
qed

lemma seen_convert_line:
  assumes "seen_inv (thread c) seen"
  shows "seen_inv (thread (convert_line l c)) (foldl add_seen seen (interned_line l))"
proof (cases "line_match l")
  case None
  then show ?thesis using assms by (simp add: convert_line_def interned_line_def)
next
  case (Some y)
  obtain fr d where y: "y = (fr, d)" by (cases y)
  have "l \<noteq> []" using Some line_match_Nil by auto
  then show ?thesis using Some y seen_sample_loop [OF assms]
    by (simp add: convert_line_def interned_line_def)
qed

lemma seen_fold:
  "seen_inv (thread c) seen \<Longrightarrow>
   seen_inv (thread (fold convert_line ls c)) (foldl add_seen seen (concat (map interned_line ls)))"
proof (induction ls arbitrary: c seen)
  case Nil
  then show ?case by simp
next
  case (Cons l ls)
  from Cons.IH [OF seen_convert_line [OF Cons.prems]] show ?case by simp
qed

lemma seen_convert_lines:
  "seen_inv (thread (convert_lines (split_js (CHR 0x0A) p))) (first_seen (interned p))"
proof -
  have "seen_inv (thread initial_conv) []"
    by (simp add: seen_inv_def initial_conv_def createThread_def)
  from seen_fold [OF this] show ?thesis
    by (simp add: convert_lines_def first_seen_def interned_def)
qed

lemma strip_java_same_iff:
  "(a \<noteq> b \<and> strip_java a = strip_java b) =
     ((a = b @ ''_[j]'' \<and> \<not> (\<exists>x. b = x @ ''_[j]'')) \<or>
      (b = a @ ''_[j]'' \<and> \<not> (\<exists>x. a = x @ ''_[j]'')))"
proof
  assume h: "a \<noteq> b \<and> strip_java a = strip_java b"
  show "(a = b @ ''_[j]'' \<and> \<not> (\<exists>x. b = x @ ''_[j]'')) \<or>
      (b = a @ ''_[j]'' \<and> \<not> (\<exists>x. a = x @ ''_[j]''))"
  proof (cases "\<exists>x. a = x @ ''_[j]''")
    case True
    then obtain x where x: "a = x @ ''_[j]''" by blast
    then have sa: "strip_java a = x" by (simp only: strip_java_marked)
    have nb: "\<not> (\<exists>y. b = y @ ''_[j]'')"
    proof
      assume "\<exists>y. b = y @ ''_[j]''"
      then obtain y where y: "b = y @ ''_[j]''" by blast
      then have "strip_java b = y" by (simp only: strip_java_marked)
      with sa h x y show False by simp
    qed
    then have "strip_java b = b" by (rule strip_java_plain)
    with sa h x have "a = b @ ''_[j]''" by simp
    with nb show ?thesis by blast
  next
    case False
    then have sa: "strip_java a = a" by (rule strip_java_plain)
    have mb: "\<exists>y. b = y @ ''_[j]''"
    proof (rule ccontr)
      assume "\<not> (\<exists>y. b = y @ ''_[j]'')"
      then have "strip_java b = b" by (rule strip_java_plain)
      with sa h show False by simp
    qed
    then obtain y where y: "b = y @ ''_[j]''" by blast
    then have "strip_java b = y" by (simp only: strip_java_marked)
    with sa h y have "b = a @ ''_[j]''" by simp
    with False show ?thesis by blast
  qed
next
  assume "(a = b @ ''_[j]'' \<and> \<not> (\<exists>x. b = x @ ''_[j]'')) \<or>
      (b = a @ ''_[j]'' \<and> \<not> (\<exists>x. a = x @ ''_[j]''))"
  then show "a \<noteq> b \<and> strip_java a = strip_java b"
  proof
    assume h: "a = b @ ''_[j]'' \<and> \<not> (\<exists>x. b = x @ ''_[j]'')"
    then have "strip_java a = b" by (simp only: strip_java_marked)
    moreover have "strip_java b = b" using h by (intro strip_java_plain) simp
    moreover have "a \<noteq> b" using h by auto
    ultimately show ?thesis by simp
  next
    assume h: "b = a @ ''_[j]'' \<and> \<not> (\<exists>x. a = x @ ''_[j]'')"
    then have "strip_java b = a" by (simp only: strip_java_marked)
    moreover have "strip_java a = a" using h by (intro strip_java_plain) simp
    moreover have "a \<noteq> b" using h by auto
    ultimately show ?thesis by simp
  qed
qed

text \<open>
  Claim C1, as the claim states it, fails: the string table is not a sequence of unique
  strings. The line \<open>foo;foo_[j] 1\<close> interns the two distinct raw labels \<open>foo\<close> and
  \<open>foo_[j]\<close>, and the string \<open>foo\<close> is stored twice, at indices 0 and 1.
\<close>

theorem string_table_duplicate:
  "interned ''foo;foo_[j] 1'' = [''foo'', ''foo_[j]'']
   \<and> ''foo'' \<noteq> ''foo_[j]''
   \<and> map stringTable (threads (fst (convertFlameGraphProfile ''foo;foo_[j] 1''))) = [[''foo'', ''foo'']]
   \<and> \<not> distinct (concat (map stringTable (threads (fst (convertFlameGraphProfile ''foo;foo_[j] 1'')))))"
  by (simp add: interned_def interned_line_def
      convertFlameGraphProfile_def convert_lines_def initial_conv_def convert_line_def
      line_match_eq is_digit_def parseInt_def digit_val_def addSample_def getOrCreateFrame_def
      getOrCreateStack_def stack_key_def show_nat.simps createThread_def finish_simps digit_char_def
      strip_java_def endsWith_def Let_def)

text \<open>
  Claim C1, amended. For every conversion run, the string table holds one string per
  distinct raw frame label interned during the run, in first-seen order starting at
  index 0: the label with a trailing \<open>_[j]\<close> removed; the frame with id \<open>i\<close> has
  location \<open>i\<close>. String values are not deduplicated: the strings stored for two
  distinct raw labels are equal if and only if one label is the other followed by
  \<open>_[j]\<close> and the shorter label does not itself end with \<open>_[j]\<close>.
\<close>

theorem string_table_per_raw_label:
  "\<exists>t. threads (fst (convertFlameGraphProfile p)) = [t]
     \<and> stringTable t = map strip_java (first_seen (interned p))
     \<and> map location (frameTable t) = [0..<length (first_seen (interned p))]
     \<and> distinct (first_seen (interned p))
     \<and> set (first_seen (interned p)) = set (interned p)
     \<and> (\<forall>a b. (a \<noteq> b \<and> strip_java a = strip_java b) =
           ((a = b @ ''_[j]'' \<and> \<not> (\<exists>x. b = x @ ''_[j]'')) \<or>
            (b = a @ ''_[j]'' \<and> \<not> (\<exists>x. a = x @ ''_[j]''))))"
proof -
  let ?st = "thread (convert_lines (split_js (CHR 0x0A) p))"
  have "seen_inv ?st (first_seen (interned p))" by (rule seen_convert_lines)
  then have "stringTable (finish ?st) = map strip_java (first_seen (interned p))"
    and "map location (frameTable (finish ?st)) = [0..<length (first_seen (interned p))]"
    by (simp_all add: seen_inv_def finish_simps)
  moreover have "threads (fst (convertFlameGraphProfile p)) = [finish ?st]" by (rule threads_convert)
  moreover have "\<forall>a b. (a \<noteq> b \<and> strip_java a = strip_java b) =
           ((a = b @ ''_[j]'' \<and> \<not> (\<exists>x. b = x @ ''_[j]'')) \<or>
            (b = a @ ''_[j]'' \<and> \<not> (\<exists>x. a = x @ ''_[j]'')))"
    by (intro allI) (rule strip_java_same_iff)
  ultimately show ?thesis using first_seen_distinct [of "interned p"] first_seen_set [of "interned p"]
    by (intro exI [of _ "finish ?st"] conjI)
qed

theorem string_table_per_raw_label_witness:
  "first_seen (interned ''foo;foo_[j];bar 1\<newline>a_[j];a_[j]_[j];foo 2'')
       = [''foo'', ''foo_[j]'', ''bar'', ''a_[j]'', ''a_[j]_[j]'']
   \<and> map stringTable (threads (fst (convertFlameGraphProfile ''foo;foo_[j];bar 1\<newline>a_[j];a_[j]_[j];foo 2'')))
       = [[''foo'', ''foo'', ''bar'', ''a'', ''a_[j]'']]
   \<and> map (map location \<circ> frameTable)
         (threads (fst (convertFlameGraphProfile ''foo;foo_[j];bar 1\<newline>a_[j];a_[j]_[j];foo 2'')))
       = [[0, 1, 2, 3, 4]]
   \<and> strip_java ''foo_[j]'' = strip_java ''foo''
   \<and> strip_java ''a_[j]_[j]'' \<noteq> strip_java ''a_[j]''"
proof -
  let ?p = "''foo;foo_[j];bar 1\<newline>a_[j];a_[j]_[j];foo 2''"
  have i: "interned ?p = [''foo'', ''foo_[j]'', ''bar'', ''a_[j]'', ''a_[j]_[j]'', ''foo'',
      ''a_[j]'', ''a_[j]_[j]'', ''foo'']"
    by (simp add: interned_def interned_line_def line_match_eq is_digit_def parseInt_def
        digit_val_def numeral_2_eq_2)
  have f: "first_seen (interned ?p) = [''foo'', ''foo_[j]'', ''bar'', ''a_[j]'', ''a_[j]_[j]'']"
    unfolding i by (simp add: first_seen_def add_seen_def)
  have s: "map strip_java [''foo'', ''foo_[j]'', ''bar'', ''a_[j]'', ''a_[j]_[j]'']
      = [''foo'', ''foo'', ''bar'', ''a'', ''a_[j]'']"
    by (simp add: strip_java_def endsWith_def)
  have u: "[0..<length [''foo'', ''foo_[j]'', ''bar'', ''a_[j]'', ''a_[j]_[j]'']] = [0, 1, 2, 3, 4]"
    by (simp add: upt_rec)
  from string_table_per_raw_label [of ?p] obtain t where
    T: "threads (fst (convertFlameGraphProfile ?p)) = [t]
     \<and> stringTable t = map strip_java (first_seen (interned ?p))
     \<and> map location (frameTable t) = [0..<length (first_seen (interned ?p))]
     \<and> distinct (first_seen (interned ?p))
     \<and> set (first_seen (interned ?p)) = set (interned ?p)
     \<and> (\<forall>a b. (a \<noteq> b \<and> strip_java a = strip_java b) =
           ((a = b @ ''_[j]'' \<and> \<not> (\<exists>x. b = x @ ''_[j]'')) \<or>
            (b = a @ ''_[j]'' \<and> \<not> (\<exists>x. a = x @ ''_[j]''))))" ..
  note t = T [THEN conjunct1]
  note a = T [THEN conjunct2, THEN conjunct1, unfolded f s]
  note b = T [THEN conjunct2, THEN conjunct2, THEN conjunct1, unfolded f u]
  note c = T [THEN conjunct2, THEN conjunct2, THEN conjunct2, THEN conjunct2, THEN conjunct2, THEN spec, THEN spec]
  have plain: "\<not> (\<exists>x. ''foo'' = x @ ''_[j]'')"
    using endsWith_iff [of "''_[j]''" "''foo''"] by (simp add: endsWith_def)
  have "''foo_[j]'' = ''foo'' @ ''_[j]''" by simp
  with plain have "(''foo_[j]'' = ''foo'' @ ''_[j]'' \<and> \<not> (\<exists>x. ''foo'' = x @ ''_[j]'')) \<or>
            (''foo'' = ''foo_[j]'' @ ''_[j]'' \<and> \<not> (\<exists>x. ''foo_[j]'' = x @ ''_[j]''))" by (intro disjI1 conjI)
  then have d: "strip_java ''foo_[j]'' = strip_java ''foo''"
    using c [of "''foo_[j]''" "''foo''"] by (simp only: simp_thms)
  have marked: "\<exists>x. ''a_[j]'' = x @ ''_[j]''" by (rule exI [of _ "''a''"]) simp
  have "\<not> ((''a_[j]_[j]'' = ''a_[j]'' @ ''_[j]'' \<and> \<not> (\<exists>x. ''a_[j]'' = x @ ''_[j]'')) \<or>
            (''a_[j]'' = ''a_[j]_[j]'' @ ''_[j]'' \<and> \<not> (\<exists>x. ''a_[j]_[j]'' = x @ ''_[j]'')))"
    using marked by simp
  then have "\<not> (''a_[j]_[j]'' \<noteq> ''a_[j]'' \<and> strip_java ''a_[j]_[j]'' = strip_java ''a_[j]'')"
    unfolding c [of "''a_[j]_[j]''" "''a_[j]''"] .
  then have e: "strip_java ''a_[j]_[j]'' \<noteq> strip_java ''a_[j]''" by simp
  have "map stringTable (threads (fst (convertFlameGraphProfile ?p))) = [[''foo'', ''foo'', ''bar'', ''a'', ''a_[j]'']]"
    unfolding t using a by simp
  moreover have "map (map location \<circ> frameTable) (threads (fst (convertFlameGraphProfile ?p))) = [[0, 1, 2, 3, 4]]"
    unfolding t using b by simp
  ultimately show ?thesis using f d e by (intro conjI)
qed

section \<open>What the format detector accepts\<close>

lemma indexOf_mem: "c \<in> set s \<Longrightarrow> indexOf c s = int (length (takeWhile (\<lambda>x. x \<noteq> c) s))"
  by (induction s) (auto simp: Let_def)

lemma indexOf_not_mem: "c \<notin> set s \<Longrightarrow> indexOf c s = - 1"
  by (induction s) (auto simp: Let_def)

lemma substring_take: "k \<le> length s \<Longrightarrow> substring 0 (int k) s = take k s"
  by (simp add: substring_def Let_def min_def max_def)

lemma substring_neg: "substring 0 (- 1) s = []"
  by (simp add: substring_def Let_def min_def max_def)

lemma first_line_code:
  "CHR 0x0A \<in> set p \<Longrightarrow> substring 0 (indexOf (CHR 0x0A) p) p = first_line p"
proof -
  assume "CHR 0x0A \<in> set p"
  then have "indexOf (CHR 0x0A) p = int (length (takeWhile (\<lambda>x. x \<noteq> CHR 0x0A) p))"
    by (rule indexOf_mem)
  moreover have "length (takeWhile (\<lambda>x. x \<noteq> CHR 0x0A) p) \<le> length p"
    by (rule length_takeWhile_le)
  ultimately show ?thesis
    by (simp add: substring_take first_line_def takeWhile_eq_take [symmetric])
qed

lemma first_line_code_none:
  "CHR 0x0A \<notin> set p \<Longrightarrow> substring 0 (indexOf (CHR 0x0A) p) p = []"
  by (simp add: indexOf_not_mem substring_neg)

lemma in_starts_append: "t \<in> set (starts (fr @ t))"
  by (induction fr) (simp_all add: self_in_starts)

lemma last_sep_pattern:
  "(last_sep s \<noteq> None) =
     (\<exists>fr ds rest. s = fr @ CHR '' '' # ds @ rest \<and> ds \<noteq> [] \<and> (\<forall>c \<in> set ds. is_digit c))"
proof
  assume "last_sep s \<noteq> None"
  then obtain e where e: "last_sep s = Some e" by auto
  from last_sep_bound [OF e] have dig: "is_digit (s ! Suc e)" by simp
  have "s = take e s @ drop e s" by simp
  also have "drop e s = CHR '' '' # [s ! Suc e] @ drop (Suc (Suc e)) s"
    using last_sep_drop [OF e] by simp
  finally have "s = take e s @ CHR '' '' # [s ! Suc e] @ drop (Suc (Suc e)) s" .
  moreover have "[s ! Suc e] \<noteq> []" and "\<forall>c \<in> set [s ! Suc e]. is_digit c" using dig by simp_all
  ultimately show "\<exists>fr ds rest. s = fr @ CHR '' '' # ds @ rest \<and> ds \<noteq> [] \<and> (\<forall>c \<in> set ds. is_digit c)"
    by blast
next
  assume "\<exists>fr ds rest. s = fr @ CHR '' '' # ds @ rest \<and> ds \<noteq> [] \<and> (\<forall>c \<in> set ds. is_digit c)"
  then obtain fr ds rest where s: "s = fr @ CHR '' '' # ds @ rest" and "ds \<noteq> []"
    and d: "\<forall>c \<in> set ds. is_digit c" by blast
  then obtain d' ds' where "ds = d' # ds'" by (cases ds) auto
  then have "sep_at (CHR '' '' # ds @ rest)" using d by simp
  moreover have "(CHR '' '' # ds @ rest) \<in> set (starts s)" unfolding s by (rule in_starts_append)
  ultimately show "last_sep s \<noteq> None" unfolding last_sep_iff by blast
qed

lemma detector_eq:
  "isFlameGraphFormat p =
     (\<not> startsWith ''{'' p \<and> last_sep (substring 0 (indexOf (CHR 0x0A) p) p) \<noteq> None)"
  by (simp add: isFlameGraphFormat_def Let_def rx_test_detect)

lemma no_line_break_not_detected: "CHR 0x0A \<notin> set p \<Longrightarrow> \<not> isFlameGraphFormat p"
  by (simp add: detector_eq first_line_code_none)

text \<open>
  Claim C2, as the claim states it, fails. The pattern is searched for in the first
  line, not matched against the whole of it, and it asks for a space, not for any
  whitespace: a first line \<open>a;b 5x\<close> does not end with digits and is detected, and a
  first line with a tab before the digits is not detected.
\<close>

theorem detector_claim_counterexample:
  "isFlameGraphFormat ''a;b 5x\<newline>'' \<and> \<not> claimed_detector ''a;b 5x\<newline>''
   \<and> \<not> isFlameGraphFormat [CHR ''a'', CHR 0x09, CHR ''1'', CHR 0x0A]
   \<and> claimed_detector [CHR ''a'', CHR 0x09, CHR ''1'', CHR 0x0A]"
proof -
  have a: "isFlameGraphFormat ''a;b 5x\<newline>''"
    by (simp add: detector_eq startsWith_def substring_def is_digit_def)
  have b: "\<not> claimed_line_shape ''a;b 5x''"
  proof
    assume "claimed_line_shape ''a;b 5x''"
    then obtain fr ws ds where l: "''a;b 5x'' = fr @ ws @ ds" and "ds \<noteq> []"
      and d: "\<forall>c \<in> set ds. is_digit c" unfolding claimed_line_shape_def by blast
    then have "last ''a;b 5x'' = last ds" by (simp only: l last_appendR) simp
    moreover have "last ds \<in> set ds" using \<open>ds \<noteq> []\<close> by simp
    ultimately have "is_digit (last ''a;b 5x'')" using d by simp
    then show False by (simp add: is_digit_def)
  qed
  have c: "\<not> isFlameGraphFormat [CHR ''a'', CHR 0x09, CHR ''1'', CHR 0x0A]"
    by (simp add: detector_eq startsWith_def substring_def is_digit_def)
  have "[CHR ''a'', CHR 0x09, CHR ''1''] = ''a'' @ [CHR 0x09] @ ''1''" by simp
  moreover have "[CHR 0x09] \<noteq> []" "\<forall>c \<in> set [CHR 0x09]. is_whitespace c"
    "''1'' \<noteq> []" "\<forall>c \<in> set ''1''. is_digit c"
    by (simp_all add: is_whitespace_def is_digit_def)
  ultimately have "claimed_line_shape [CHR ''a'', CHR 0x09, CHR ''1'']"
    unfolding claimed_line_shape_def by blast
  then have d: "claimed_detector [CHR ''a'', CHR 0x09, CHR ''1'', CHR 0x0A]"
    by (simp add: claimed_detector_def first_line_def startsWith_def)
  have "\<not> claimed_detector ''a;b 5x\<newline>''"
    using b by (simp add: claimed_detector_def first_line_def)
  with a c d show ?thesis by blast
qed

text \<open>
  Claim C2, amended. The detector returns false for a text that starts with \<open>{\<close>. For
  every other text that contains a line break, it returns true if and only if the first
  line (the text up to the first line break) contains, at some position, a space
  followed by one or more digits: some frames text, a space and a digit run, and then
  any further characters. A text whose first line holds no digit is never detected.
\<close>

theorem detector_first_line_pattern:
  "(startsWith ''{'' p \<longrightarrow> \<not> isFlameGraphFormat p)
   \<and> (CHR 0x0A \<in> set p \<longrightarrow> \<not> startsWith ''{'' p \<longrightarrow>
        isFlameGraphFormat p =
          (\<exists>fr ds rest. first_line p = fr @ CHR '' '' # ds @ rest \<and> ds \<noteq> []
             \<and> (\<forall>c \<in> set ds. is_digit c)))
   \<and> ((\<forall>c \<in> set (first_line p). \<not> is_digit c) \<longrightarrow> \<not> isFlameGraphFormat p)"
proof -
  have a: "\<not> isFlameGraphFormat p" if "startsWith ''{'' p"
    using that by (simp add: detector_eq)
  have b: "isFlameGraphFormat p =
          (\<exists>fr ds rest. first_line p = fr @ CHR '' '' # ds @ rest \<and> ds \<noteq> []
             \<and> (\<forall>c \<in> set ds. is_digit c))"
    if "CHR 0x0A \<in> set p" and "\<not> startsWith ''{'' p"
    using that by (simp only: detector_eq first_line_code last_sep_pattern simp_thms)
  have c: "\<not> isFlameGraphFormat p" if n: "\<forall>c \<in> set (first_line p). \<not> is_digit c"
  proof (cases "CHR 0x0A \<in> set p")
    case True
    have "last_sep (first_line p) = None" using n by (rule last_sep_no_digit)
    then show ?thesis using True by (simp add: detector_eq first_line_code)
  next
    case False
    then show ?thesis by (rule no_line_break_not_detected)
  qed
  from a b c show ?thesis by blast
qed

theorem detector_first_line_pattern_witness:
  "isFlameGraphFormat ''main;foo;bar 12\<newline>main;baz 3''
   \<and> \<not> isFlameGraphFormat ''{ \"a\": 1 2\<newline>''
   \<and> \<not> isFlameGraphFormat ''main;foo;bar\<newline>main;baz 3''"
proof -
  let ?p1 = "''main;foo;bar 12\<newline>main;baz 3''"
  let ?p2 = "''{ \"a\": 1 2\<newline>''"
  let ?p3 = "''main;foo;bar\<newline>main;baz 3''"
  have nl: "CHR 0x0A \<in> set ?p1" and nb: "\<not> startsWith ''{'' ?p1"
    by (simp_all add: startsWith_def)
  have fl: "first_line ?p1 = ''main;foo;bar'' @ CHR '' '' # ''12'' @ []"
    by (simp add: first_line_def)
  have "''12'' \<noteq> []" and "\<forall>c \<in> set ''12''. is_digit c" by (simp_all add: is_digit_def)
  with fl have ex: "\<exists>fr ds rest. first_line ?p1 = fr @ CHR '' '' # ds @ rest \<and> ds \<noteq> []
             \<and> (\<forall>c \<in> set ds. is_digit c)" by blast
  note t1 = detector_first_line_pattern [of ?p1, THEN conjunct2, THEN conjunct1, THEN mp, THEN mp, OF nl nb]
  have a: "isFlameGraphFormat ?p1" unfolding t1 by (rule ex)
  have "startsWith ''{'' ?p2" by (simp add: startsWith_def)
  then have b: "\<not> isFlameGraphFormat ?p2"
    by (rule detector_first_line_pattern [of ?p2, THEN conjunct1, THEN mp])
  have "\<forall>c \<in> set (first_line ?p3). \<not> is_digit c" by (simp add: first_line_def is_digit_def)
  then have c: "\<not> isFlameGraphFormat ?p3"
    by (rule detector_first_line_pattern [of ?p3, THEN conjunct2, THEN conjunct2, THEN mp])
  from a b c show ?thesis by (intro conjI)
qed

section \<open>Deduplication of stack rows\<close>

lemma key_inv_frame:
  assumes "key_inv st" and "getOrCreateFrame l st = (f, st1)"
  shows "key_inv st1"
proof (cases "frameMap st l")
  case None
  then show ?thesis using assms by (auto simp: frame_miss key_inv_def)
next
  case (Some g)
  then show ?thesis using assms by (auto simp: frame_hit)
qed

lemma key_inv_stack:
  assumes "key_inv st" and "getOrCreateStack f p st = (k, st1)"
  shows "key_inv st1"
proof (cases "stackMap st (stack_key f p)")
  case (Some g)
  then show ?thesis using assms by (auto simp: stack_hit)
next
  case None
  let ?n = "length (stackTable st)"
  have st1: "stackTable st1 = stackTable st @ [(p, f)]"
    "stackMap st1 = (stackMap st)(stack_key f p \<mapsto> ?n)"
    using assms(2) by (auto simp: stack_miss [OF None])
  have "(stackMap st1 key = Some j) =
        (j < length (stackTable st1) \<and>
         key = stack_key (snd (stackTable st1 ! j)) (fst (stackTable st1 ! j)))" for key j
  proof (cases "key = stack_key f p")
    case True
    have "j < ?n \<Longrightarrow> key \<noteq> stack_key (snd (stackTable st ! j)) (fst (stackTable st ! j))"
    proof
      assume "j < ?n" and "key = stack_key (snd (stackTable st ! j)) (fst (stackTable st ! j))"
      then have "stackMap st key = Some j" using assms(1) by (simp add: key_inv_def)
      with None True show False by simp
    qed
    then show ?thesis using True by (auto simp: st1 nth_append less_Suc_eq)
  next
    case False
    have "(stackMap st key = Some j) =
        (j < ?n \<and> key = stack_key (snd (stackTable st ! j)) (fst (stackTable st ! j)))"
      using assms(1) by (simp add: key_inv_def)
    then show ?thesis using False by (auto simp: st1 nth_append less_Suc_eq)
  qed
  then show ?thesis by (simp add: key_inv_def)
qed

lemma key_inv_reduce:
  "key_inv st \<Longrightarrow> reduce_stack arr p st = (s, st1) \<Longrightarrow> key_inv st1"
proof (induction arr arbitrary: p st)
  case Nil
  then show ?case by simp
next
  case (Cons l rest)
  obtain f sta where a: "getOrCreateFrame l st = (f, sta)" by (cases "getOrCreateFrame l st")
  obtain k stb where b: "getOrCreateStack f p sta = (k, stb)" by (cases "getOrCreateStack f p sta")
  from Cons.prems(2) a b have r: "reduce_stack rest (Some k) stb = (s, st1)" by simp
  have "key_inv stb" using key_inv_frame [OF Cons.prems(1) a] b by (rule key_inv_stack)
  then show ?case using r by (rule Cons.IH)
qed

lemma key_inv_addSample: "key_inv st \<Longrightarrow> key_inv (addSample t arr st)"
proof -
  assume k: "key_inv st"
  obtain s st1 where r: "reduce_stack arr None st = (s, st1)" by (cases "reduce_stack arr None st")
  from key_inv_reduce [OF k r] r show ?thesis by (simp add: addSample_def key_inv_def)
qed

lemma key_inv_sample_loop: "key_inv (thread c) \<Longrightarrow> key_inv (thread (sample_loop n fr c))"
proof (induction n arbitrary: c)
  case 0
  then show ?case by simp
next
  case (Suc n)
  let ?arr = "split_js (CHR '';'') fr"
  let ?c1 = "c\<lparr>thread := addSample (timeStamp c) ?arr (thread c), timeStamp := timeStamp c + 1\<rparr>"
  have "key_inv (thread ?c1)" using Suc.prems by (simp add: key_inv_addSample)
  then have "key_inv (thread (sample_loop n fr ?c1))" by (rule Suc.IH)
  then show ?case by (simp add: split_js_nonempty)
qed

lemma key_inv_convert_line: "key_inv (thread c) \<Longrightarrow> key_inv (thread (convert_line l c))"
  by (auto simp: convert_line_def key_inv_sample_loop split: option.splits)

lemma key_inv_fold: "key_inv (thread c) \<Longrightarrow> key_inv (thread (fold convert_line ls c))"
  by (induction ls arbitrary: c) (simp_all add: key_inv_convert_line)

lemma key_inv_convert_lines: "key_inv (thread (convert_lines ls))"
  unfolding convert_lines_def
  by (rule key_inv_fold) (simp add: key_inv_def initial_conv_def createThread_def)

lemma key_inv_distinct:
  assumes "key_inv st"
  shows "distinct (stackTable st)"
proof -
  have "i = j" if "i < length (stackTable st)" "j < length (stackTable st)"
    "stackTable st ! i = stackTable st ! j" for i j
  proof -
    let ?key = "stack_key (snd (stackTable st ! i)) (fst (stackTable st ! i))"
    have "stackMap st ?key = Some i" using assms that(1) by (simp add: key_inv_def)
    moreover have "stackMap st ?key = Some j" using assms that(2,3) by (simp add: key_inv_def)
    ultimately show ?thesis by simp
  qed
  then show ?thesis by (auto simp: distinct_conv_nth)
qed

lemma stack_rows_distinct:
  "distinct (stackTable (thread (convert_lines ls)))"
  using key_inv_convert_lines by (rule key_inv_distinct)

section \<open>The key of a stack row\<close>

lemma digit_val_digit_char: "d < 10 \<Longrightarrow> digit_val (digit_char d) = d"
  by (simp add: digit_val_def digit_char_def)

lemma parseInt_snoc: "parseInt (xs @ [c]) = 10 * parseInt xs + digit_val c"
  by (simp add: parseInt_def)

lemma parseInt_show_nat: "parseInt (show_nat n) = n"
proof (induction n rule: show_nat.induct)
  case (1 n)
  show ?case
  proof (cases "n < 10")
    case True
    then have "show_nat n = [digit_char n]" by (simp add: show_nat.simps)
    then show ?thesis using True by (simp add: parseInt_def digit_val_digit_char)
  next
    case False
    then have s: "show_nat n = show_nat (n div 10) @ [digit_char (n mod 10)]"
      by (subst show_nat.simps) simp
    have "parseInt (show_nat (n div 10)) = n div 10" using False by (rule "1.IH")
    then show ?thesis unfolding s by (simp add: parseInt_snoc digit_val_digit_char)
  qed
qed

lemma show_nat_inj: "show_nat a = show_nat b \<Longrightarrow> a = b"
  using parseInt_show_nat by metis

lemma digit_char_not_comma: "d < 10 \<Longrightarrow> digit_char d \<noteq> CHR '',''"
proof
  assume d: "d < 10" and "digit_char d = CHR '',''"
  then have "of_char (digit_char d) = (of_char (CHR '','') :: nat)" by simp
  then show False using d by (simp add: digit_char_def)
qed

lemma show_nat_no_comma: "CHR '','' \<notin> set (show_nat n)"
proof (induction n rule: show_nat.induct)
  case (1 n)
  show ?case
  proof (cases "n < 10")
    case True
    then have "show_nat n = [digit_char n]" by (simp add: show_nat.simps)
    then show ?thesis using True digit_char_not_comma [of n] by auto
  next
    case False
    then have s: "show_nat n = show_nat (n div 10) @ [digit_char (n mod 10)]"
      by (subst show_nat.simps) simp
    have "CHR '','' \<notin> set (show_nat (n div 10))" using False by (rule "1.IH")
    moreover have "digit_char (n mod 10) \<noteq> CHR '',''" by (rule digit_char_not_comma) simp
    ultimately show ?thesis unfolding s by auto
  qed
qed

lemma stack_key_inj: "(stack_key f p = stack_key f' p') = (f = f' \<and> p = p')"
proof
  assume k: "stack_key f p = stack_key f' p'"
  show "f = f' \<and> p = p'"
  proof (cases p)
    case None
    show ?thesis
    proof (cases p')
      case pn: None
      then show ?thesis using k None by (simp add: stack_key_def show_nat_inj)
    next
      case (Some q')
      then have "show_nat f = show_nat f' @ CHR '','' # show_nat q'"
        using k None by (simp add: stack_key_def)
      then have "CHR '','' \<in> set (show_nat f)" by simp
      then show ?thesis using show_nat_no_comma by blast
    qed
  next
    case (Some q)
    show ?thesis
    proof (cases p')
      case None
      then have "show_nat f' = show_nat f @ CHR '','' # show_nat q"
        using k Some by (simp add: stack_key_def)
      then have "CHR '','' \<in> set (show_nat f')" by simp
      then show ?thesis using show_nat_no_comma by blast
    next
      case ps: (Some q')
      then have "show_nat f @ CHR '','' # show_nat q = show_nat f' @ CHR '','' # show_nat q'"
        using k Some by (simp add: stack_key_def)
      then have "show_nat f = show_nat f' \<and> show_nat q = show_nat q'"
        by (rule append_Cons_eq_iff [THEN iffD1, OF show_nat_no_comma show_nat_no_comma])
      then show ?thesis using Some ps by (auto dest: show_nat_inj)
    qed
  qed
next
  assume "f = f' \<and> p = p'"
  then show "stack_key f p = stack_key f' p'" by simp
qed

lemma key_inv_reachable: "reachable st \<Longrightarrow> key_inv st"
proof (induction rule: reachable.induct)
  case (start nm p t)
  show ?case by (simp add: key_inv_def createThread_def)
next
  case (frame st l)
  then show ?case using key_inv_frame [of st l] by (cases "getOrCreateFrame l st") simp
next
  case (stack st f q)
  then show ?case using key_inv_stack [of st f q] by (cases "getOrCreateStack f q st") simp
next
  case (sample st x)
  then show ?case by (simp add: key_inv_def)
qed

lemma stack_row_of_pair:
  assumes "key_inv st"
  shows "fst (getOrCreateStack f p st) < length (stackTable (snd (getOrCreateStack f p st)))
       \<and> stackTable (snd (getOrCreateStack f p st)) ! fst (getOrCreateStack f p st) = (p, f)
       \<and> stackTable (snd (getOrCreateStack f p st)) =
           (if (p, f) \<in> set (stackTable st) then stackTable st else stackTable st @ [(p, f)])"
proof (cases "stackMap st (stack_key f p)")
  case None
  have "(p, f) \<notin> set (stackTable st)"
  proof
    assume "(p, f) \<in> set (stackTable st)"
    then obtain j where "j < length (stackTable st)" "stackTable st ! j = (p, f)"
      by (auto simp: in_set_conv_nth)
    then have "stackMap st (stack_key f p) = Some j" using assms by (simp add: key_inv_def)
    with None show False by simp
  qed
  then show ?thesis by (simp add: stack_miss [OF None])
next
  case (Some k)
  then have k: "k < length (stackTable st)"
    and e: "stack_key f p = stack_key (snd (stackTable st ! k)) (fst (stackTable st ! k))"
    using assms by (simp_all add: key_inv_def)
  from e have "stackTable st ! k = (p, f)" by (simp add: stack_key_inj prod_eq_iff)
  moreover from this k have "(p, f) \<in> set (stackTable st)" by (metis nth_mem)
  ultimately show ?thesis using k by (simp add: stack_hit [OF Some])
qed

lemma reachable_reduce: "reachable st \<Longrightarrow> reachable (snd (reduce_stack arr q st))"
proof (induction arr arbitrary: q st)
  case Nil
  then show ?case by simp
next
  case (Cons l rest)
  obtain f sta where a: "getOrCreateFrame l st = (f, sta)" by (cases "getOrCreateFrame l st")
  obtain k stb where b: "getOrCreateStack f q sta = (k, stb)" by (cases "getOrCreateStack f q sta")
  have "reachable sta" using reachable.frame [OF Cons.prems, of l] a by simp
  then have "reachable stb" using reachable.stack [of sta f q] b by simp
  then have "reachable (snd (reduce_stack rest (Some k) stb))" by (rule Cons.IH)
  then show ?case using a b by simp
qed

lemma reachable_addSample: "reachable st \<Longrightarrow> reachable (addSample t arr st)"
proof -
  assume r: "reachable st"
  obtain s st1 where e: "reduce_stack arr None st = (s, st1)" by (cases "reduce_stack arr None st")
  have "reachable st1" using reachable_reduce [OF r, of arr None] e by simp
  then show ?thesis using e by (simp add: addSample_def reachable.sample)
qed

lemma reachable_sample_loop: "reachable (thread c) \<Longrightarrow> reachable (thread (sample_loop n fr c))"
proof (induction n arbitrary: c)
  case 0
  then show ?case by simp
next
  case (Suc n)
  let ?arr = "split_js (CHR '';'') fr"
  let ?c1 = "c\<lparr>thread := addSample (timeStamp c) ?arr (thread c), timeStamp := timeStamp c + 1\<rparr>"
  have "reachable (thread ?c1)" using Suc.prems by (simp add: reachable_addSample)
  then have "reachable (thread (sample_loop n fr ?c1))" by (rule Suc.IH)
  then show ?case by (simp add: split_js_nonempty)
qed

lemma reachable_convert_line: "reachable (thread c) \<Longrightarrow> reachable (thread (convert_line l c))"
  by (auto simp: convert_line_def reachable_sample_loop split: option.splits)

lemma reachable_fold: "reachable (thread c) \<Longrightarrow> reachable (thread (fold convert_line ls c))"
  by (induction ls arbitrary: c) (simp_all add: reachable_convert_line)

lemma reachable_convert_lines: "reachable (thread (convert_lines ls))"
  unfolding convert_lines_def
  by (rule reachable_fold) (simp add: initial_conv_def reachable.start)

text \<open>
  Claim C3. Converting the two lines \<open>a;b;c 1\<close> and \<open>a;b;d 1\<close> gives a
  \<open>stackTable\<close> of exactly four rows, for the call paths \<open>a\<close>, \<open>a;b\<close>, \<open>a;b;c\<close> and
  \<open>a;b;d\<close> (frames 0 to 3 are \<open>a\<close>, \<open>b\<close>, \<open>c\<close>, \<open>d\<close>): the rows of the shared prefix
  \<open>a;b\<close> are stored once, and both leaves have row 1 as their prefix. Stack rows are
  deduplicated by their (prefix, frame) pair, not by the frame alone: the lines \<open>a;b 1\<close>,
  \<open>b 1\<close> and \<open>c;b 1\<close> give frame \<open>b\<close> three rows, one per prefix. In general, the
  key of a pair determines the pair; in every state the builder can reach,
  \<open>getOrCreateStack\<close> returns the index of a row that holds exactly the requested
  pair, and it appends that row if and only if no row holds the pair yet; and for every
  input \<open>p\<close>, no two rows of the \<open>stackTable\<close> hold the same pair.
\<close>

theorem shared_prefix_four_stacks:
  "map stackTable (threads (fst (convertFlameGraphProfile ''a;b;c 1\<newline>a;b;d 1'')))
     = [[(None, 0), (Some 0, 1), (Some 1, 2), (Some 1, 3)]]
   \<and> map (length \<circ> stackTable) (threads (fst (convertFlameGraphProfile ''a;b;c 1\<newline>a;b;d 1''))) = [4]
   \<and> map stringTable (threads (fst (convertFlameGraphProfile ''a;b;c 1\<newline>a;b;d 1'')))
     = [[''a'', ''b'', ''c'', ''d'']]
   \<and> map (map location \<circ> frameTable) (threads (fst (convertFlameGraphProfile ''a;b;c 1\<newline>a;b;d 1'')))
     = [[0, 1, 2, 3]]
   \<and> map (map fst \<circ> samples) (threads (fst (convertFlameGraphProfile ''a;b;c 1\<newline>a;b;d 1'')))
     = [[Some 2, Some 3]]
   \<and> (\<exists>t. threads (fst (convertFlameGraphProfile p)) = [t] \<and> distinct (stackTable t))
   \<and> map stackTable (threads (fst (convertFlameGraphProfile ''a;b 1\<newline>b 1\<newline>c;b 1'')))
     = [[(None, 0), (Some 0, 1), (None, 1), (None, 2), (Some 3, 1)]]
   \<and> (stack_key f q = stack_key f' q') = (f = f' \<and> q = q')
   \<and> reachable (thread (convert_lines ls))
   \<and> (reachable st \<longrightarrow>
        fst (getOrCreateStack f q st) < length (stackTable (snd (getOrCreateStack f q st)))
        \<and> stackTable (snd (getOrCreateStack f q st)) ! fst (getOrCreateStack f q st) = (q, f)
        \<and> stackTable (snd (getOrCreateStack f q st)) =
            (if (q, f) \<in> set (stackTable st) then stackTable st else stackTable st @ [(q, f)]))"
proof -
  have a: "map stackTable (threads (fst (convertFlameGraphProfile ''a;b;c 1\<newline>a;b;d 1'')))
     = [[(None, 0), (Some 0, 1), (Some 1, 2), (Some 1, 3)]]
   \<and> map (length \<circ> stackTable) (threads (fst (convertFlameGraphProfile ''a;b;c 1\<newline>a;b;d 1''))) = [4]
   \<and> map stringTable (threads (fst (convertFlameGraphProfile ''a;b;c 1\<newline>a;b;d 1'')))
     = [[''a'', ''b'', ''c'', ''d'']]
   \<and> map (map location \<circ> frameTable) (threads (fst (convertFlameGraphProfile ''a;b;c 1\<newline>a;b;d 1'')))
     = [[0, 1, 2, 3]]
   \<and> map (map fst \<circ> samples) (threads (fst (convertFlameGraphProfile ''a;b;c 1\<newline>a;b;d 1'')))
     = [[Some 2, Some 3]]"
    by (simp add: convertFlameGraphProfile_def convert_lines_def initial_conv_def convert_line_def
      line_match_eq is_digit_def parseInt_def digit_val_def addSample_def getOrCreateFrame_def
      getOrCreateStack_def stack_key_def show_nat.simps createThread_def finish_simps digit_char_def
      strip_java_def endsWith_def Let_def)
  have b: "\<exists>t. threads (fst (convertFlameGraphProfile p)) = [t] \<and> distinct (stackTable t)"
    by (simp add: threads_convert finish_simps stack_rows_distinct)
  have c: "map stackTable (threads (fst (convertFlameGraphProfile ''a;b 1\<newline>b 1\<newline>c;b 1'')))
     = [[(None, 0), (Some 0, 1), (None, 1), (None, 2), (Some 3, 1)]]"
    by (simp add: convertFlameGraphProfile_def convert_lines_def initial_conv_def convert_line_def
      line_match_eq is_digit_def parseInt_def digit_val_def addSample_def getOrCreateFrame_def
      getOrCreateStack_def stack_key_def show_nat.simps createThread_def finish_simps digit_char_def
      strip_java_def endsWith_def Let_def)
  have d: "(stack_key f q = stack_key f' q') = (f = f' \<and> q = q')" by (rule stack_key_inj)
  have e: "reachable (thread (convert_lines ls))" by (rule reachable_convert_lines)
  have g: "reachable st \<longrightarrow>
        fst (getOrCreateStack f q st) < length (stackTable (snd (getOrCreateStack f q st)))
        \<and> stackTable (snd (getOrCreateStack f q st)) ! fst (getOrCreateStack f q st) = (q, f)
        \<and> stackTable (snd (getOrCreateStack f q st)) =
            (if (q, f) \<in> set (stackTable st) then stackTable st else stackTable st @ [(q, f)])"
  proof
    assume "reachable st"
    then have "key_inv st" by (rule key_inv_reachable)
    then show "fst (getOrCreateStack f q st) < length (stackTable (snd (getOrCreateStack f q st)))
        \<and> stackTable (snd (getOrCreateStack f q st)) ! fst (getOrCreateStack f q st) = (q, f)
        \<and> stackTable (snd (getOrCreateStack f q st)) =
            (if (q, f) \<in> set (stackTable st) then stackTable st else stackTable st @ [(q, f)])"
      by (rule stack_row_of_pair)
  qed
  note a1 = a [THEN conjunct1]
  note a2 = a [THEN conjunct2, THEN conjunct1]
  note a3 = a [THEN conjunct2, THEN conjunct2, THEN conjunct1]
  note a4 = a [THEN conjunct2, THEN conjunct2, THEN conjunct2, THEN conjunct1]
  note a5 = a [THEN conjunct2, THEN conjunct2, THEN conjunct2, THEN conjunct2]
  show ?thesis
    by (rule conjI [OF a1 conjI [OF a2 conjI [OF a3 conjI [OF a4 conjI [OF a5
         conjI [OF b conjI [OF c conjI [OF d conjI [OF e g]]]]]]]]])
qed


theorem shared_prefix_four_stacks_witness:
  "stackTable (snd (getOrCreateStack 0 None (createThread ''MainThread'' 0 0))) = [(None, 0)]
   \<and> stackTable (snd (getOrCreateStack 0 (Some 0)
         (snd (getOrCreateStack 0 None (createThread ''MainThread'' 0 0)))))
       = [(None, 0), (Some 0, 0)]
   \<and> fst (getOrCreateStack 0 (Some 0)
         (snd (getOrCreateStack 0 None (createThread ''MainThread'' 0 0)))) = 1
   \<and> stackTable (snd (getOrCreateStack 0 None
         (snd (getOrCreateStack 0 None (createThread ''MainThread'' 0 0)))))
       = [(None, 0)]
   \<and> fst (getOrCreateStack 0 None
         (snd (getOrCreateStack 0 None (createThread ''MainThread'' 0 0)))) = 0"
proof -
  let ?st0 = "createThread ''MainThread'' 0 0"
  let ?st1 = "snd (getOrCreateStack 0 None ?st0)"
  note pair = shared_prefix_four_stacks [THEN conjunct2, THEN conjunct2, THEN conjunct2,
      THEN conjunct2, THEN conjunct2, THEN conjunct2, THEN conjunct2, THEN conjunct2,
      THEN conjunct2, THEN mp]
  have r0: "reachable ?st0" by (rule reachable.start)
  have r1: "reachable ?st1" using r0 by (rule reachable.stack)
  have e0: "stackTable ?st0 = []" by (simp add: createThread_def)
  note t0 = pair [OF r0, of 0 None]
  have s1: "stackTable ?st1 = [(None, 0)]"
    using t0 [THEN conjunct2, THEN conjunct2] by (simp add: e0)
  note t1 = pair [OF r1, of 0 "Some 0"]
  have s2: "stackTable (snd (getOrCreateStack 0 (Some 0) ?st1)) = [(None, 0), (Some 0, 0)]"
    using t1 [THEN conjunct2, THEN conjunct2] by (simp add: s1)
  have "fst (getOrCreateStack 0 (Some 0) ?st1) < 2"
    using t1 [THEN conjunct1] by (simp add: s2)
  moreover have "[(None, 0), (Some 0, 0)] ! fst (getOrCreateStack 0 (Some 0) ?st1) = (Some (0::nat), 0::nat)"
    using t1 [THEN conjunct2, THEN conjunct1] by (simp add: s2)
  ultimately have k2: "fst (getOrCreateStack 0 (Some 0) ?st1) = 1"
    by (cases "fst (getOrCreateStack 0 (Some 0) ?st1)") auto
  note t2 = pair [OF r1, of 0 None]
  have s3: "stackTable (snd (getOrCreateStack 0 None ?st1)) = [(None, 0)]"
    using t2 [THEN conjunct2, THEN conjunct2] by (simp add: s1)
  have "fst (getOrCreateStack 0 None ?st1) < 1"
    using t2 [THEN conjunct1] by (simp add: s3)
  then have k3: "fst (getOrCreateStack 0 None ?st1) = 0" by simp
  from s1 s2 k2 s3 k3 show ?thesis by (intro conjI)
qed

section \<open>Lines that are skipped\<close>

lemma line_match_None_iff:
  "(line_match l = None) =
     (\<not> (\<exists>fr ds rest. l = fr @ CHR '' '' # ds @ rest \<and> ds \<noteq> [] \<and> (\<forall>c \<in> set ds. is_digit c)))"
proof -
  have "(line_match l = None) = (last_sep l = None)"
    by (simp add: line_match_eq split: option.splits)
  also have "\<dots> = (\<not> (last_sep l \<noteq> None))" by simp
  finally show ?thesis unfolding last_sep_pattern .
qed

text \<open>
  Claim C7, as the claim states it, fails. The line \<open>b 2x\<close> has no trailing number and
  is not of the \<open>frames weight\<close> shape, yet it is neither logged nor skipped: the text
  \<open>a 1\<close>, \<open>b 2x\<close> gives the sample of the first line and two samples for \<open>b\<close>, and
  nothing is written to the console.
\<close>

theorem malformed_line_converted:
  "\<not> expected_shape ''b 2x''
   \<and> \<not> is_digit (last ''b 2x'')
   \<and> map samples (threads (fst (convertFlameGraphProfile ''a 1'')))
       = [[(Some 0, 0, 0)]]
   \<and> map samples (threads (fst (convertFlameGraphProfile ''a 1\<newline>b 2x'')))
       = [[(Some 0, 0, 0), (Some 1, 1, 0), (Some 1, 2, 0)]]
   \<and> map stringTable (threads (fst (convertFlameGraphProfile ''a 1\<newline>b 2x''))) = [[''a'', ''b'']]
   \<and> snd (convertFlameGraphProfile ''a 1\<newline>b 2x'') = []"
proof -
  have nd: "\<not> is_digit (last ''b 2x'')" by (simp add: is_digit_def)
  have a: "\<not> expected_shape ''b 2x''"
  proof
    assume "expected_shape ''b 2x''"
    then obtain fr ds where l: "''b 2x'' = fr @ CHR '' '' # ds" and "ds \<noteq> []"
      and d: "\<forall>c \<in> set ds. is_digit c" unfolding expected_shape_def by blast
    have "last ''b 2x'' = last (fr @ CHR '' '' # ds)" by (simp only: l)
    also have "\<dots> = last ds" using \<open>ds \<noteq> []\<close> by simp
    finally have "last ''b 2x'' = last ds" .
    moreover have "last ds \<in> set ds" using \<open>ds \<noteq> []\<close> by simp
    ultimately have "is_digit (last ''b 2x'')" using d by simp
    with nd show False by simp
  qed
  have b: "map samples (threads (fst (convertFlameGraphProfile ''a 1''))) = [[(Some 0, 0, 0)]]
   \<and> map samples (threads (fst (convertFlameGraphProfile ''a 1\<newline>b 2x'')))
       = [[(Some 0, 0, 0), (Some 1, 1, 0), (Some 1, 2, 0)]]
   \<and> map stringTable (threads (fst (convertFlameGraphProfile ''a 1\<newline>b 2x''))) = [[''a'', ''b'']]
   \<and> snd (convertFlameGraphProfile ''a 1\<newline>b 2x'') = []"
    by (simp add: convertFlameGraphProfile_def convert_lines_def initial_conv_def convert_line_def
      line_match_eq is_digit_def parseInt_def digit_val_def addSample_def getOrCreateFrame_def
      getOrCreateStack_def stack_key_def show_nat.simps createThread_def finish_simps digit_char_def
      strip_java_def endsWith_def numeral_2_eq_2 Let_def)
  show ?thesis by (rule conjI [OF a conjI [OF nd b]])
qed

text \<open>
  Claim C7, amended. The lines that the parser does not match are exactly the lines in
  which no space is followed by a digit (a line such as \<open>b 2x\<close> is matched). A non-empty
  line of this kind is written to the console and skipped, and the conversion goes on
  with the next line: the thread of the result is the one obtained from the matched
  lines alone, and the console holds exactly the non-empty unmatched lines, in order.
  When no line is matched, the result is still a profile with one thread, whose
  \<open>samples\<close>, \<open>frameTable\<close>, \<open>stackTable\<close> and \<open>stringTable\<close> are empty.
\<close>

theorem malformed_lines_skipped:
  "threads (fst (convertFlameGraphProfile p))
     = [finish (thread (convert_lines (filter (\<lambda>l. line_match l \<noteq> None) (split_js (CHR 0x0A) p))))]
   \<and> snd (convertFlameGraphProfile p)
     = filter (\<lambda>l. l \<noteq> [] \<and> line_match l = None) (split_js (CHR 0x0A) p)
   \<and> ((\<forall>l \<in> set (split_js (CHR 0x0A) p). line_match l = None) \<longrightarrow>
        threads (fst (convertFlameGraphProfile p))
          = [\<lparr>tid = 0, pid = 0, name = ''MainThread'', markers = [], samples = [],
              frameTable = [], stackTable = [], stringTable = []\<rparr>])
   \<and> (line_match l = None) =
        (\<not> (\<exists>fr ds rest. l = fr @ CHR '' '' # ds @ rest \<and> ds \<noteq> [] \<and> (\<forall>c \<in> set ds. is_digit c)))"
proof -
  let ?ls = "split_js (CHR 0x0A) p"
  have "thread (convert_lines ?ls) = thread (convert_lines (filter (\<lambda>l. line_match l \<noteq> None) ?ls))"
    unfolding convert_lines_def using fold_skip [OF refl refl] by blast
  then have a: "threads (fst (convertFlameGraphProfile p))
     = [finish (thread (convert_lines (filter (\<lambda>l. line_match l \<noteq> None) ?ls)))]"
    by (simp add: threads_convert)
  have b: "snd (convertFlameGraphProfile p) = filter (\<lambda>l. l \<noteq> [] \<and> line_match l = None) ?ls"
    by (simp add: console_convert convert_lines_def fold_console initial_conv_def)
  have c: "(\<forall>l \<in> set ?ls. line_match l = None) \<longrightarrow>
        threads (fst (convertFlameGraphProfile p))
          = [\<lparr>tid = 0, pid = 0, name = ''MainThread'', markers = [], samples = [],
              frameTable = [], stackTable = [], stringTable = []\<rparr>]"
  proof
    assume n: "\<forall>l \<in> set ?ls. line_match l = None"
    have "thread (convert_lines ?ls) = thread initial_conv"
      unfolding convert_lines_def using fold_all_unmatched [OF n] by blast
    then show "threads (fst (convertFlameGraphProfile p))
          = [\<lparr>tid = 0, pid = 0, name = ''MainThread'', markers = [], samples = [],
              frameTable = [], stackTable = [], stringTable = []\<rparr>]"
      by (simp add: threads_convert initial_conv_def createThread_def finish_def gecko_thread.truncate_def)
  qed
  note d = line_match_None_iff [of l]
  show ?thesis by (rule conjI [OF a conjI [OF b conjI [OF c d]]])
qed

theorem malformed_lines_skipped_witness:
  "map samples (threads (fst (convertFlameGraphProfile ''a;b 2\<newline>no number'')))
     = [[(Some 1, 0, 0), (Some 1, 1, 0)]]
   \<and> snd (convertFlameGraphProfile ''a;b 2\<newline>no number'') = [''no number'']
   \<and> threads (fst (convertFlameGraphProfile ''only text\<newline>12\<newline>x;7''))
     = [\<lparr>tid = 0, pid = 0, name = ''MainThread'', markers = [], samples = [],
          frameTable = [], stackTable = [], stringTable = []\<rparr>]
   \<and> snd (convertFlameGraphProfile ''only text\<newline>12\<newline>x;7'') = [''only text'', ''12'', ''x;7'']
   \<and> line_match ''no number'' = None
   \<and> line_match ''b 2x'' \<noteq> None"
proof -
  have e: "line_match ''a;b 2'' = Some (''a;b'', ''2'')" "line_match ''no number'' = None"
    "line_match ''only text'' = None" "line_match ''12'' = None" "line_match ''x;7'' = None"
    by (simp_all add: line_match_eq is_digit_def)
  note t1 = malformed_lines_skipped [of "''a;b 2\<newline>no number''"]
  note t2 = malformed_lines_skipped [of "''only text\<newline>12\<newline>x;7''"]
  have a: "map samples (threads (fst (convertFlameGraphProfile ''a;b 2\<newline>no number'')))
     = [[(Some 1, 0, 0), (Some 1, 1, 0)]]"
    by (subst conjunct1 [OF t1])
      (simp add: e convert_lines_def initial_conv_def convert_line_def
        parseInt_def digit_val_def addSample_def getOrCreateFrame_def
        getOrCreateStack_def stack_key_def show_nat.simps createThread_def finish_simps digit_char_def
        numeral_2_eq_2 Let_def)
  have b: "snd (convertFlameGraphProfile ''a;b 2\<newline>no number'') = [''no number'']"
    by (subst conjunct1 [OF conjunct2 [OF t1]]) (simp add: e)
  have c: "threads (fst (convertFlameGraphProfile ''only text\<newline>12\<newline>x;7''))
     = [\<lparr>tid = 0, pid = 0, name = ''MainThread'', markers = [], samples = [],
          frameTable = [], stackTable = [], stringTable = []\<rparr>]"
    using conjunct1 [OF conjunct2 [OF conjunct2 [OF t2]]] by (simp add: e)
  have d: "snd (convertFlameGraphProfile ''only text\<newline>12\<newline>x;7'') = [''only text'', ''12'', ''x;7'']"
    by (subst conjunct1 [OF conjunct2 [OF t2]]) (simp add: e)
  have "\<forall>c \<in> set ''no number''. \<not> is_digit c" by (simp add: is_digit_def)
  then have "\<not> (\<exists>fr ds rest. ''no number'' = fr @ CHR '' '' # ds @ rest \<and> ds \<noteq> []
      \<and> (\<forall>c \<in> set ds. is_digit c))"
    unfolding last_sep_pattern [symmetric] using last_sep_no_digit [of "''no number''"] by simp
  then have f: "line_match ''no number'' = None"
    by (rule conjunct2 [OF conjunct2 [OF conjunct2 [OF malformed_lines_skipped]], THEN iffD2])
  have "''b 2x'' = ''b'' @ CHR '' '' # ''2'' @ ''x''" by simp
  moreover have "''2'' \<noteq> []" "\<forall>c \<in> set ''2''. is_digit c" by (simp_all add: is_digit_def)
  ultimately have "\<exists>fr ds rest. ''b 2x'' = fr @ CHR '' '' # ds @ rest \<and> ds \<noteq> []
      \<and> (\<forall>c \<in> set ds. is_digit c)" by (intro exI conjI)
  then have g: "line_match ''b 2x'' \<noteq> None"
    using conjunct2 [OF conjunct2 [OF conjunct2 [OF malformed_lines_skipped]], of "''b 2x''"] by (simp only: simp_thms)
  from a b c d f g show ?thesis by (intro conjI)
qed

end
